theory Spec2Isabelle
  imports Complex_Main "HOL-Library.AList" "HOL-Library.Sublist" "HOL-Library.Product_Lexorder"
begin

section \<open>Shared conventions\<close>

text \<open>
  The development embeds the tree-synthesis engine of the SpellTreeBuilder
  (\<^verbatim>\<open>growth/branching_energy.py\<close>, \<^verbatim>\<open>core/registry.py\<close>,
  \<^verbatim>\<open>core/spacing.py\<close>, \<^verbatim>\<open>core/math_utils.py\<close> and \<^verbatim>\<open>tree_builder.py\<close>).

  Python exceptions are values of \<open>py_error\<close> (of \<open>py_exception\<close> in the plugin
  registry, which passes on what a constructor raises); a function that can raise returns
  a sum with \<open>Inl\<close> for the exception.  Python floats are modelled as
  \<open>real\<close>: rounding, infinities and NaN are outside the model, every formula is the
  one the source writes.
\<close>

datatype py_error = KeyError string | ZeroDivisionError | ValueError

text \<open>\<^verbatim>\<open>int(x)\<close> on a float truncates towards zero.\<close>

definition py_int :: "real \<Rightarrow> int" where
  "py_int v = (if 0 \<le> v then \<lfloor>v\<rfloor> else \<lceil>v\<rceil>)"

subsection \<open>The random module\<close>

text \<open>
  The generator is the sequence of raw outcomes of its successive calls: the next call
  consumes \<open>g 0\<close> and leaves \<open>\<lambda>i. g (Suc i)\<close>.  \<^verbatim>\<open>random.random()\<close> is a
  53-bit integer divided by \<open>2^53\<close>, a float in \<open>[0, 1)\<close>; \<^verbatim>\<open>random.randint(a, b)\<close>
  is an integer of \<open>[a, b]\<close> and raises ValueError on an empty range.
\<close>

type_synonym rng = "nat \<Rightarrow> nat"

definition rng_tail :: "rng \<Rightarrow> rng" where
  "rng_tail g = (\<lambda>i. g (Suc i))"

definition random_random :: "rng \<Rightarrow> real \<times> rng" where
  "random_random g = (real (g 0 mod 2 ^ 53) / 2 ^ 53, rng_tail g)"

definition random_randint :: "int \<Rightarrow> int \<Rightarrow> rng \<Rightarrow> py_error + (int \<times> rng)" where
  "random_randint a b g =
     (if b < a then Inl ValueError
      else Inr (a + int (g 0 mod nat (b - a + 1)), rng_tail g))"

section \<open>Branching energy (growth/branching\_energy.py)\<close>

record BranchingEnergyConfig =
  enabled :: bool
  min_straight :: int
  max_straight :: int
  energy_per_node :: real
  energy_to_branch :: real
  randomness :: real

text \<open>The two dictionaries \<^verbatim>\<open>_straight_counts\<close> and \<^verbatim>\<open>_energy\<close> are maps keyed by node id.\<close>

record BranchingEnergy =
  config :: BranchingEnergyConfig
  straight_counts :: "string \<rightharpoonup> int"
  energy :: "string \<rightharpoonup> real"

definition default_config :: BranchingEnergyConfig where
  "default_config =
     \<lparr>enabled = True, min_straight = 2, max_straight = 5,
      energy_per_node = 3 / 10, energy_to_branch = 1, randomness = 3 / 10\<rparr>"

definition new_branching :: "BranchingEnergyConfig \<Rightarrow> BranchingEnergy" where
  "new_branching c = \<lparr>config = c, straight_counts = Map.empty, energy = Map.empty\<rparr>"

definition start_path :: "BranchingEnergy \<Rightarrow> string \<Rightarrow> BranchingEnergy" where
  "start_path be root_id =
     be\<lparr>straight_counts := (straight_counts be)(root_id \<mapsto> 0),
        energy := (energy be)(root_id \<mapsto> 0)\<rparr>"

definition get_straight_count :: "BranchingEnergy \<Rightarrow> string \<Rightarrow> int" where
  "get_straight_count be node_id =
     (case straight_counts be node_id of None \<Rightarrow> 0 | Some v \<Rightarrow> v)"

definition get_energy :: "BranchingEnergy \<Rightarrow> string \<Rightarrow> real" where
  "get_energy be node_id = (case energy be node_id of None \<Rightarrow> 0 | Some v \<Rightarrow> v)"

definition record_connection ::
  "BranchingEnergy \<Rightarrow> string \<Rightarrow> string \<Rightarrow> bool \<Rightarrow> BranchingEnergy" where
  "record_connection be parent_id child_id is_branch =
     (if \<not> enabled (config be) then be
      else
        let parent_straight = (case straight_counts be parent_id of None \<Rightarrow> 0 | Some v \<Rightarrow> v);
            parent_energy = (case energy be parent_id of None \<Rightarrow> 0 | Some v \<Rightarrow> v)
        in if is_branch then
             let remaining_energy = max 0 (parent_energy - energy_to_branch (config be))
             in be\<lparr>straight_counts := (straight_counts be)(child_id \<mapsto> 0),
                   energy := (energy be)(child_id \<mapsto> remaining_energy * (1 / 2))\<rparr>
           else
             be\<lparr>straight_counts := (straight_counts be)(child_id \<mapsto> parent_straight + 1),
                energy := (energy be)(child_id \<mapsto> parent_energy + energy_per_node (config be))\<rparr>)"

definition can_branch :: "BranchingEnergy \<Rightarrow> string \<Rightarrow> bool" where
  "can_branch be node_id =
     (if \<not> enabled (config be) then True
      else
        let straight_count = get_straight_count be node_id
        in if straight_count < min_straight (config be) then False
           else if straight_count \<ge> max_straight (config be) then True
           else get_energy be node_id \<ge> energy_to_branch (config be))"

definition must_branch :: "BranchingEnergy \<Rightarrow> string \<Rightarrow> bool" where
  "must_branch be node_id =
     (if \<not> enabled (config be) then False
      else get_straight_count be node_id \<ge> max_straight (config be))"

text \<open>
  \<^verbatim>\<open>should_branch\<close> divides by \<^verbatim>\<open>energy_to_branch\<close>; on floats Python raises
  ZeroDivisionError when it is zero.  The divisor of \<open>progress\<close> is at least 1.
\<close>

definition should_branch ::
  "BranchingEnergy \<Rightarrow> string \<Rightarrow> real \<Rightarrow> rng \<Rightarrow> py_error + (bool \<times> rng)" where
  "should_branch be node_id base_probability g =
     (if \<not> enabled (config be) then
        (let (r, g1) = random_random g in Inr (r < base_probability, g1))
      else if \<not> can_branch be node_id then Inr (False, g)
      else if must_branch be node_id then Inr (True, g)
      else
        let straight_count = get_straight_count be node_id;
            en = get_energy be node_id
        in if energy_to_branch (config be) = 0 then Inl ZeroDivisionError
           else
             let energy_factor = min 1 (en / energy_to_branch (config be));
                 progress = real_of_int (straight_count - min_straight (config be))
                            / real_of_int (max 1 (max_straight (config be) - min_straight (config be)));
                 straight_factor = progress;
                 deterministic_prob =
                   (energy_factor * (6 / 10) + straight_factor * (4 / 10)) * base_probability
             in if randomness (config be) > 0 then
                  (let (r1, g1) = random_random g;
                       random_offset = (r1 - 1 / 2) * 2 * randomness (config be);
                       final_prob = max 0 (min 1 (deterministic_prob + random_offset * (1 / 2)));
                       (r2, g2) = random_random g1
                   in Inr (r2 < final_prob, g2))
                else
                  (let (r2, g2) = random_random g in Inr (r2 < deterministic_prob, g2)))"

definition calculate_children_count ::
  "BranchingEnergy \<Rightarrow> string \<Rightarrow> int \<Rightarrow> real \<Rightarrow> rng \<Rightarrow> py_error + (int \<times> rng)" where
  "calculate_children_count be node_id max_children base_probability g =
     (if max_children \<le> 1 then Inr (max_children, g)
      else
        case should_branch be node_id base_probability g of
          Inl e \<Rightarrow> Inl e
        | Inr (b, g1) \<Rightarrow>
            if \<not> b then Inr (1, g1)
            else if \<not> enabled (config be) \<or> randomness (config be) \<ge> 8 / 10 then
              random_randint 2 max_children g1
            else
              let en = get_energy be node_id;
                  energy_excess = max 0 (en - energy_to_branch (config be));
                  base_count = 2
              in if energy_per_node (config be) = 0 then Inl ZeroDivisionError
                 else
                   let energy_bonus = py_int (energy_excess / energy_per_node (config be))
                   in if randomness (config be) > 0 then
                        (case random_randint 0 (max 0 (max_children - base_count - energy_bonus)) g1 of
                           Inl e \<Rightarrow> Inl e
                         | Inr (random_bonus, g2) \<Rightarrow>
                             let final_count = base_count + energy_bonus
                                   + py_int (real_of_int random_bonus * randomness (config be))
                             in Inr (min max_children (max 2 final_count), g2))
                      else
                        (let final_count = base_count + energy_bonus
                         in Inr (min max_children (max 2 final_count), g1)))"

section \<open>Plugin registry (core/registry.py)\<close>

text \<open>
  A Python string is the list of its code points, so that names outside ASCII are strings
  of the model too; \<open>lit\<close> turns a literal of the source into such a list.
\<close>

type_synonym py_str = "nat list"

definition lit :: "string \<Rightarrow> py_str" where
  "lit s = map of_char s"

text \<open>\<^verbatim>\<open>sep.join(xs)\<close>.\<close>

fun join :: "py_str \<Rightarrow> py_str list \<Rightarrow> py_str" where
  "join sep [] = []"
| "join sep [s] = s"
| "join sep (s # t # ts) = s @ sep @ join sep (t # ts)"

text \<open>A raised exception: the name of its class and its argument.\<close>

datatype py_exception = PyException py_str py_str

definition KeyError_msg :: "py_str \<Rightarrow> py_exception" where
  "KeyError_msg msg = PyException (lit ''KeyError'') msg"

text \<open>
  The class-level dictionary \<^verbatim>\<open>_plugins\<close> is an association list in insertion order
  (assignment to an existing key keeps its place).  A plugin class is its constructor:
  the call \<^verbatim>\<open>plugin_class(*args, **kwargs)\<close> returns the instance or raises.  The
  attribute \<^verbatim>\<open>_registry_name\<close> that \<^verbatim>\<open>register\<close> stores on the class is not read by the
  registry and is left out.

  \<^verbatim>\<open>str.lower\<close> is a built-in of Python (the Unicode case mapping), not code of the
  repository: it is the argument \<open>str_lower\<close> of every function that calls it, and what is
  proved below holds for every function in its place.
\<close>

record ('a, 'i) PluginRegistry =
  plugins :: "(py_str \<times> ('a \<Rightarrow> py_exception + 'i)) list"
  plugin_type :: py_str

definition register ::
  "(py_str \<Rightarrow> py_str) \<Rightarrow> ('a, 'i) PluginRegistry \<Rightarrow> py_str \<Rightarrow> ('a \<Rightarrow> py_exception + 'i)
     \<Rightarrow> ('a, 'i) PluginRegistry" where
  "register str_lower reg name plugin_class =
     reg\<lparr>plugins := AList.update (str_lower name) plugin_class (plugins reg)\<rparr>"

definition get ::
  "(py_str \<Rightarrow> py_str) \<Rightarrow> ('a, 'i) PluginRegistry \<Rightarrow> py_str
     \<Rightarrow> ('a \<Rightarrow> py_exception + 'i) option" where
  "get str_lower reg name = map_of (plugins reg) (str_lower name)"

definition list_names :: "('a, 'i) PluginRegistry \<Rightarrow> py_str list" where
  "list_names reg = map fst (plugins reg)"

definition has :: "(py_str \<Rightarrow> py_str) \<Rightarrow> ('a, 'i) PluginRegistry \<Rightarrow> py_str \<Rightarrow> bool" where
  "has str_lower reg name = (str_lower name \<in> set (map fst (plugins reg)))"

text \<open>The f-string of lines 80 and 81.\<close>

definition unknown_message :: "('a, 'i) PluginRegistry \<Rightarrow> py_str \<Rightarrow> py_str" where
  "unknown_message reg name =
     lit ''Unknown '' @ plugin_type reg @ lit '' '' @ lit [CHR 0x27] @ name @ lit [CHR 0x27]
       @ lit ''. Available: '' @ join (lit '', '') (list_names reg)"

definition create ::
  "(py_str \<Rightarrow> py_str) \<Rightarrow> ('a, 'i) PluginRegistry \<Rightarrow> py_str \<Rightarrow> 'a \<Rightarrow> py_exception + 'i" where
  "create str_lower reg name args =
     (case get str_lower reg name of
        None \<Rightarrow> Inl (KeyError_msg (unknown_message reg name))
      | Some plugin_class \<Rightarrow> plugin_class args)"

definition ShapeRegistry :: "('a, 'i) PluginRegistry" where
  "ShapeRegistry = \<lparr>plugins = [], plugin_type = lit ''shape''\<rparr>"

text \<open>
  On a string of ASCII characters \<^verbatim>\<open>str.lower\<close> lowers the letters A to Z and leaves the
  rest; \<open>ascii_lower\<close> does that, and stands for \<^verbatim>\<open>str.lower\<close> in the concrete registries
  below, whose names are ASCII.
\<close>

definition ascii_lower :: "py_str \<Rightarrow> py_str" where
  "ascii_lower s = map (\<lambda>c. if 65 \<le> c \<and> c \<le> 90 then c + 32 else c) s"

section \<open>Properties of the branching-energy controller\<close>

definition disabled_state :: BranchingEnergy where
  "disabled_state =
     \<lparr>config = default_config\<lparr>enabled := False\<rparr>,
      straight_counts = [''c'' \<mapsto> 9], energy = [''c'' \<mapsto> 5]\<rparr>"

text \<open>
  Claim C10.  When \<^verbatim>\<open>config.enabled\<close> is false, \<^verbatim>\<open>record_connection\<close> returns the
  controller unchanged (neither map is touched), and for every node id
  \<^verbatim>\<open>can_branch\<close> is true and \<^verbatim>\<open>must_branch\<close> is false, whatever has been recorded.
\<close>

theorem disabled_is_inert:
  assumes "\<not> enabled (config be)"
  shows "record_connection be parent_id child_id is_branch = be
         \<and> can_branch be node_id \<and> \<not> must_branch be node_id"
  using assms by (simp add: record_connection_def can_branch_def must_branch_def)

theorem disabled_is_inert_witness:
  "\<not> enabled (config disabled_state)
   \<and> record_connection disabled_state ''p'' ''c'' False = disabled_state
   \<and> can_branch disabled_state ''c'' \<and> \<not> must_branch disabled_state ''c''"
proof -
  have h: "\<not> enabled (config disabled_state)"
    by (simp add: disabled_state_def default_config_def)
  show ?thesis using h disabled_is_inert [OF h] by simp
qed

text \<open>
  Claim C6 as stated fails for a disabled controller: after a straight connection the
  child's straight-count is not the parent's plus one (nothing is recorded).
\<close>

theorem record_connection_disabled_counterexample:
  "get_straight_count (record_connection disabled_state ''c'' ''d'' False) ''d''
     \<noteq> get_straight_count disabled_state ''c'' + 1"
  by (simp add: record_connection_def disabled_state_def default_config_def get_straight_count_def)

text \<open>
  Claim C6, amended.  When the controller is enabled, \<^verbatim>\<open>record_connection\<close> changes
  exactly the child's two entries: on a branch the straight-count becomes 0 and the energy
  \<open>max 0 (parent_energy - energy_to_branch) * 0.5\<close>; otherwise the straight-count
  becomes the parent's plus one and the energy the parent's plus \<^verbatim>\<open>energy_per_node\<close>;
  an untracked parent counts as straight-count 0 and energy 0.
\<close>

theorem record_connection_enabled:
  assumes "enabled (config be)"
  shows "config (record_connection be parent_id child_id is_branch) = config be
    \<and> straight_counts (record_connection be parent_id child_id is_branch) =
        (straight_counts be)(child_id \<mapsto>
           (if is_branch then 0 else get_straight_count be parent_id + 1))
    \<and> energy (record_connection be parent_id child_id is_branch) =
        (energy be)(child_id \<mapsto>
           (if is_branch
            then max 0 (get_energy be parent_id - energy_to_branch (config be)) * (1 / 2)
            else get_energy be parent_id + energy_per_node (config be)))"
  using assms
  by (simp add: record_connection_def get_straight_count_def get_energy_def Let_def)

definition tracked_state :: BranchingEnergy where
  "tracked_state =
     \<lparr>config = default_config,
      straight_counts = [''p'' \<mapsto> 3], energy = [''p'' \<mapsto> 3 / 2]\<rparr>"

theorem record_connection_enabled_witness:
  "enabled (config tracked_state)
   \<and> straight_counts (record_connection tracked_state ''p'' ''c'' True) ''c'' = Some 0
   \<and> energy (record_connection tracked_state ''p'' ''c'' True) ''c'' = Some (1 / 4)
   \<and> straight_counts (record_connection tracked_state ''p'' ''c'' False) ''c'' = Some 4
   \<and> energy (record_connection tracked_state ''p'' ''c'' False) ''c'' = Some (18 / 10)
   \<and> straight_counts (record_connection tracked_state ''q'' ''c'' False) ''c'' = Some 1
   \<and> straight_counts (record_connection tracked_state ''p'' ''c'' True) ''p'' = Some 3"
proof -
  have h: "enabled (config tracked_state)"
    by (simp add: tracked_state_def default_config_def)
  show ?thesis
    using h record_connection_enabled [OF h, of "''p''" "''c''" True]
      record_connection_enabled [OF h, of "''p''" "''c''" False]
      record_connection_enabled [OF h, of "''q''" "''c''" False]
    by (simp add: tracked_state_def default_config_def get_straight_count_def get_energy_def)
qed

lemma random_randint_range:
  assumes "a \<le> b"
  shows "\<exists>v g'. random_randint a b g = Inr (v, g') \<and> a \<le> v \<and> v \<le> b"
proof -
  have "0 < nat (b - a + 1)" using assms by simp
  then have "g 0 mod nat (b - a + 1) < nat (b - a + 1)" by simp
  then have "int (g 0 mod nat (b - a + 1)) \<le> b - a" by linarith
  then show ?thesis using assms by (simp add: random_randint_def)
qed

definition forced_state :: BranchingEnergy where
  "forced_state =
     \<lparr>config = default_config,
      straight_counts = [''n'' \<mapsto> 5], energy = [''n'' \<mapsto> 16 / 10]\<rparr>"

text \<open>
  Claim C7 as stated fails for \<^verbatim>\<open>max_children = 0\<close>: the branching decision is false,
  yet the result is 0, not 1.
\<close>

theorem children_count_zero_counterexample:
  "should_branch (new_branching default_config) ''n'' (1 / 2) (\<lambda>i. 0) = Inr (False, \<lambda>i. 0)
   \<and> calculate_children_count (new_branching default_config) ''n'' 0 (1 / 2) (\<lambda>i. 0)
       = Inr (0, \<lambda>i. 0)"
  by (simp add: should_branch_def calculate_children_count_def can_branch_def
      new_branching_def default_config_def get_straight_count_def)

text \<open>
  Claim C7, amended.  For \<^verbatim>\<open>max_children \<le> 1\<close> the function returns \<^verbatim>\<open>max_children\<close>
  itself without drawing a decision.  For \<^verbatim>\<open>max_children \<ge> 2\<close> it follows
  \<^verbatim>\<open>should_branch\<close>: an error of the decision is passed on, a false decision gives 1,
  and a true decision gives a count between 2 and \<^verbatim>\<open>max_children\<close>, except that the
  energy-based count divides by \<^verbatim>\<open>energy_per_node\<close> and raises ZeroDivisionError when
  that is zero.
\<close>

theorem children_count_range:
  "(max_children \<le> 1 \<longrightarrow>
      calculate_children_count be node_id max_children base_probability g
        = Inr (max_children, g))
   \<and> (2 \<le> max_children \<longrightarrow>
      (case should_branch be node_id base_probability g of
         Inl e \<Rightarrow> calculate_children_count be node_id max_children base_probability g = Inl e
       | Inr (b, g1) \<Rightarrow>
           if \<not> b then
             calculate_children_count be node_id max_children base_probability g = Inr (1, g1)
           else if enabled (config be) \<and> randomness (config be) < 8 / 10
                   \<and> energy_per_node (config be) = 0 then
             calculate_children_count be node_id max_children base_probability g
               = Inl ZeroDivisionError
           else
             (\<exists>v g2. calculate_children_count be node_id max_children base_probability g
                        = Inr (v, g2) \<and> 2 \<le> v \<and> v \<le> max_children)))"
proof (intro conjI impI)
  assume "max_children \<le> 1"
  then show "calculate_children_count be node_id max_children base_probability g
        = Inr (max_children, g)"
    by (simp add: calculate_children_count_def)
next
  assume mc: "2 \<le> max_children"
  show "case should_branch be node_id base_probability g of
         Inl e \<Rightarrow> calculate_children_count be node_id max_children base_probability g = Inl e
       | Inr (b, g1) \<Rightarrow>
           if \<not> b then
             calculate_children_count be node_id max_children base_probability g = Inr (1, g1)
           else if enabled (config be) \<and> randomness (config be) < 8 / 10
                   \<and> energy_per_node (config be) = 0 then
             calculate_children_count be node_id max_children base_probability g
               = Inl ZeroDivisionError
           else
             (\<exists>v g2. calculate_children_count be node_id max_children base_probability g
                        = Inr (v, g2) \<and> 2 \<le> v \<and> v \<le> max_children)"
  proof (cases "should_branch be node_id base_probability g")
    case (Inl e)
    then show ?thesis using mc by (simp add: calculate_children_count_def)
  next
    case (Inr p)
    obtain b g1 where p: "p = (b, g1)" by (cases p)
    show ?thesis
    proof (cases b)
      case False
      then show ?thesis using mc Inr p by (simp add: calculate_children_count_def)
    next
      case True
      note b = True
      show ?thesis
      proof (cases "\<not> enabled (config be) \<or> randomness (config be) \<ge> 8 / 10")
        case True
        from random_randint_range [of 2 max_children g1] mc
        obtain v g2 where "random_randint 2 max_children g1 = Inr (v, g2)" "2 \<le> v" "v \<le> max_children"
          by auto
        then show ?thesis using mc Inr p b True
          by (auto simp add: calculate_children_count_def)
      next
        case False
        note lowrand = False
        show ?thesis
        proof (cases "energy_per_node (config be) = 0")
          case True
          then show ?thesis using mc Inr p b lowrand
            by (auto simp add: calculate_children_count_def Let_def)
        next
          case False
          note epn = False
          show ?thesis
          proof (cases "randomness (config be) > 0")
            case True
            define hi where "hi = max 0 (max_children - 2 - py_int (max 0 (get_energy be node_id - energy_to_branch (config be)) / energy_per_node (config be)))"
            have "0 \<le> hi" by (simp add: hi_def)
            from random_randint_range [OF this, of g1]
            obtain v g2 where r: "random_randint 0 hi g1 = Inr (v, g2)" by auto
            show ?thesis using mc Inr p b lowrand epn True r
              by (auto simp add: calculate_children_count_def Let_def hi_def)
          next
            case False
            then show ?thesis using mc Inr p b lowrand epn
              by (auto simp add: calculate_children_count_def Let_def)
          qed
        qed
      qed
    qed
  qed
qed

theorem children_count_range_witness:
  "(2::int) \<le> 3
   \<and> should_branch forced_state ''n'' (1 / 2) (\<lambda>i. 7) = Inr (True, \<lambda>i. 7)
   \<and> (\<exists>v g2. calculate_children_count forced_state ''n'' 3 (1 / 2) (\<lambda>i. 7) = Inr (v, g2)
         \<and> 2 \<le> v \<and> v \<le> 3)
   \<and> (1::int) \<le> 1
   \<and> calculate_children_count forced_state ''n'' 1 (1 / 2) (\<lambda>i. 7) = Inr (1, \<lambda>i. 7)"
proof -
  have sb: "should_branch forced_state ''n'' (1 / 2) (\<lambda>i. 7) = Inr (True, \<lambda>i. 7)"
    by (simp add: should_branch_def can_branch_def must_branch_def forced_state_def
        default_config_def get_straight_count_def)
  show ?thesis
    using children_count_range [of 3 forced_state "''n''" "1 / 2" "\<lambda>i. 7"]
      children_count_range [of 1 forced_state "''n''" "1 / 2" "\<lambda>i. 7"] sb
    by (simp add: forced_state_def default_config_def)
qed

section \<open>Properties of the plugin registry\<close>

lemma sublist_join:
  "n \<in> set ns \<Longrightarrow> sublist n (join sep ns)"
proof (induction sep ns rule: join.induct)
  case (1 sep)
  then show ?case by simp
next
  case (2 sep s)
  then show ?case by simp
next
  case (3 sep s t ts)
  show ?case
  proof (cases "n = s")
    case True
    then show ?thesis by (simp add: sublist_append_rightI)
  next
    case False
    with 3 have "sublist n (join sep (t # ts))" by simp
    then have "sublist n ((s @ sep) @ join sep (t # ts))"
      by (simp add: sublist_append)
    then show ?thesis by simp
  qed
qed

lemma get_register:
  "get str_lower (register str_lower reg n c) m
     = (if str_lower m = str_lower n then Some c else get str_lower reg m)"
  by (simp add: get_def register_def update_conv')

text \<open>
  An organic and a linear shape that accept every configuration, and a radial shape whose
  constructor raises for every configuration but \<open>0\<close>.
\<close>

definition three_shapes :: "(nat, py_str \<times> nat) PluginRegistry" where
  "three_shapes =
     register ascii_lower
       (register ascii_lower
          (register ascii_lower ShapeRegistry (lit ''Organic'')
             (\<lambda>cfg. Inr (lit ''OrganicShape'', cfg)))
          (lit ''linear'') (\<lambda>cfg. Inr (lit ''LinearShape'', cfg)))
       (lit ''radial'')
       (\<lambda>cfg. if cfg = 0 then Inr (lit ''RadialShape'', cfg)
              else Inl (PyException (lit ''AttributeError'') (lit ''get'')))"

text \<open>
  Claim C9 as stated fails: \<open>radial\<close> is a registered name, and \<^verbatim>\<open>create\<close> raises what the
  constructor of the class registered under it raises, instead of returning an instance.
\<close>

theorem create_registered_raises_counterexample:
  "has ascii_lower three_shapes (lit ''radial'')
   \<and> ascii_lower (lit ''radial'') \<in> set (list_names three_shapes)
   \<and> create ascii_lower three_shapes (lit ''radial'') 3
       = Inl (PyException (lit ''AttributeError'') (lit ''get''))"
  by code_simp

text \<open>
  Claim C9, amended.  If the lower-cased name is not a registered key, \<^verbatim>\<open>create\<close> raises a
  KeyError whose message is \<^verbatim>\<open>Unknown <type> '<name>'. Available: <names>\<close>: it contains
  the plugin type, the name asked for and every registered name.  If it is a registered
  key, the result of \<^verbatim>\<open>create\<close> is the result of calling the class registered under it on
  the arguments: the instance the constructor returns, or the exception it raises; no
  other class is used.  This holds whatever \<^verbatim>\<open>str.lower\<close> does.
\<close>

theorem create_unknown_or_constructed:
  "(str_lower name \<notin> set (list_names reg) \<longrightarrow>
        create str_lower reg name args = Inl (KeyError_msg (unknown_message reg name)))
   \<and> (str_lower name \<in> set (list_names reg) \<longrightarrow>
        (\<exists>plugin_class. map_of (plugins reg) (str_lower name) = Some plugin_class
           \<and> create str_lower reg name args = plugin_class args))
   \<and> (\<forall>plugin_class. get str_lower reg name = Some plugin_class \<longrightarrow>
        create str_lower reg name args = plugin_class args)
   \<and> (\<forall>plugin_class.
        create str_lower (register str_lower reg name plugin_class) name args
          = plugin_class args)
   \<and> sublist (plugin_type reg) (unknown_message reg name)
   \<and> sublist name (unknown_message reg name)
   \<and> (\<forall>n \<in> set (list_names reg). sublist n (unknown_message reg name))"
proof (intro conjI)
  show "str_lower name \<notin> set (list_names reg) \<longrightarrow>
        create str_lower reg name args = Inl (KeyError_msg (unknown_message reg name))"
    by (auto simp add: create_def get_def list_names_def map_of_eq_None_iff [symmetric]
        split: option.splits)
  show "str_lower name \<in> set (list_names reg) \<longrightarrow>
        (\<exists>plugin_class. map_of (plugins reg) (str_lower name) = Some plugin_class
           \<and> create str_lower reg name args = plugin_class args)"
  proof
    assume "str_lower name \<in> set (list_names reg)"
    then have "map_of (plugins reg) (str_lower name) \<noteq> None"
      by (simp add: list_names_def map_of_eq_None_iff)
    then show "\<exists>plugin_class. map_of (plugins reg) (str_lower name) = Some plugin_class
           \<and> create str_lower reg name args = plugin_class args"
      by (auto simp add: create_def get_def)
  qed
  show "\<forall>plugin_class. get str_lower reg name = Some plugin_class \<longrightarrow>
        create str_lower reg name args = plugin_class args"
    by (simp add: create_def)
  show "\<forall>plugin_class.
        create str_lower (register str_lower reg name plugin_class) name args
          = plugin_class args"
    by (simp add: create_def get_register)
  have "sublist (plugin_type reg) (lit ''Unknown '' @ plugin_type reg @
          (lit '' '' @ lit [CHR 0x27] @ name @ lit [CHR 0x27]
            @ lit ''. Available: '' @ join (lit '', '') (list_names reg)))"
    by (rule sublist_appendI)
  then show "sublist (plugin_type reg) (unknown_message reg name)"
    by (simp add: unknown_message_def)
  have "sublist name ((lit ''Unknown '' @ plugin_type reg @ lit '' '' @ lit [CHR 0x27]) @ name @
          (lit [CHR 0x27] @ lit ''. Available: '' @ join (lit '', '') (list_names reg)))"
    by (rule sublist_appendI)
  then show "sublist name (unknown_message reg name)"
    by (simp add: unknown_message_def)
  show "\<forall>n \<in> set (list_names reg). sublist n (unknown_message reg name)"
  proof
    fix n assume "n \<in> set (list_names reg)"
    then have "sublist n (join (lit '', '') (list_names reg))" by (rule sublist_join)
    then have "sublist n (pre @ join (lit '', '') (list_names reg))" for pre
      by (simp add: sublist_append)
    from this [of "lit ''Unknown '' @ plugin_type reg @ lit '' '' @ lit [CHR 0x27] @ name
       @ lit [CHR 0x27] @ lit ''. Available: ''"]
    show "sublist n (unknown_message reg name)"
      by (simp add: unknown_message_def)
  qed
qed

theorem create_unknown_or_constructed_witness:
  "list_names three_shapes = [lit ''organic'', lit ''linear'', lit ''radial'']
   \<and> create ascii_lower three_shapes (lit ''ORGANIC'') 3 = Inr (lit ''OrganicShape'', 3)
   \<and> create ascii_lower three_shapes (lit ''Radial'') 0 = Inr (lit ''RadialShape'', 0)
   \<and> create ascii_lower three_shapes (lit ''explosion'') 3
       = Inl (KeyError_msg (lit ''Unknown shape '' @ lit [CHR 0x27] @ lit ''explosion''
                          @ lit [CHR 0x27] @ lit ''. Available: organic, linear, radial''))
   \<and> sublist (lit ''linear'') (unknown_message three_shapes (lit ''explosion''))"
proof -
  have names: "list_names three_shapes = [lit ''organic'', lit ''linear'', lit ''radial'']"
    by code_simp
  have u: "ascii_lower (lit ''explosion'') \<notin> set (list_names three_shapes)"
    by code_simp
  have k: "ascii_lower (lit ''ORGANIC'') \<in> set (list_names three_shapes)"
    by code_simp
  have g: "create ascii_lower three_shapes (lit ''ORGANIC'') 3 = Inr (lit ''OrganicShape'', 3)"
    by code_simp
  have r: "create ascii_lower three_shapes (lit ''Radial'') 0 = Inr (lit ''RadialShape'', 0)"
    by code_simp
  have m: "unknown_message three_shapes (lit ''explosion'')
       = lit ''Unknown shape '' @ lit [CHR 0x27] @ lit ''explosion''
                          @ lit [CHR 0x27] @ lit ''. Available: organic, linear, radial''"
    by code_simp
  have l: "lit ''linear'' \<in> set (list_names three_shapes)" by (simp add: names)
  show ?thesis
    using create_unknown_or_constructed [of ascii_lower "lit ''ORGANIC''" three_shapes 3]
      create_unknown_or_constructed [of ascii_lower "lit ''explosion''" three_shapes 3]
      names g u k m r l
    by auto
qed

section \<open>Geometry and spacing engine (core/math\_utils.py, core/spacing.py)\<close>

record Vector2D =
  vec_x :: real
  vec_y :: real

definition v_zero :: Vector2D where
  "v_zero = \<lparr>vec_x = 0, vec_y = 0\<rparr>"

definition v_add :: "Vector2D \<Rightarrow> Vector2D \<Rightarrow> Vector2D" where
  "v_add a b = \<lparr>vec_x = vec_x a + vec_x b, vec_y = vec_y a + vec_y b\<rparr>"

definition v_sub :: "Vector2D \<Rightarrow> Vector2D \<Rightarrow> Vector2D" where
  "v_sub a b = \<lparr>vec_x = vec_x a - vec_x b, vec_y = vec_y a - vec_y b\<rparr>"

definition v_mul :: "Vector2D \<Rightarrow> real \<Rightarrow> Vector2D" where
  "v_mul a scalar = \<lparr>vec_x = vec_x a * scalar, vec_y = vec_y a * scalar\<rparr>"

definition v_truediv :: "Vector2D \<Rightarrow> real \<Rightarrow> Vector2D" where
  "v_truediv a scalar =
     (if scalar = 0 then \<lparr>vec_x = 0, vec_y = 0\<rparr>
      else \<lparr>vec_x = vec_x a / scalar, vec_y = vec_y a / scalar\<rparr>)"

definition magnitude :: "Vector2D \<Rightarrow> real" where
  "magnitude a = sqrt (vec_x a * vec_x a + vec_y a * vec_y a)"

definition normalized :: "Vector2D \<Rightarrow> Vector2D" where
  "normalized a =
     (let mag = magnitude a
      in if mag = 0 then \<lparr>vec_x = 0, vec_y = 0\<rparr> else v_truediv a mag)"

definition distance_to :: "Vector2D \<Rightarrow> Vector2D \<Rightarrow> real" where
  "distance_to a other = magnitude (v_sub a other)"

definition to_tuple :: "Vector2D \<Rightarrow> real \<times> real" where
  "to_tuple a = (vec_x a, vec_y a)"

record SpacingConfig =
  cfg_min_spacing :: real
  grid_cell_size :: real
  repulsion_strength :: real
  repulsion_iterations :: int

definition default_spacing :: SpacingConfig where
  "default_spacing =
     \<lparr>cfg_min_spacing = 1, grid_cell_size = 2, repulsion_strength = 1 / 2,
      repulsion_iterations = 3\<rparr>"

text \<open>
  \<^verbatim>\<open>spatial_index\<close> maps a grid cell to a set of node ids and \<^verbatim>\<open>positions\<close> maps a
  node id to its position.  Both are association lists in insertion order; a set of ids
  is a list without repetition.
\<close>

record SpacingEngine =
  sp_config :: SpacingConfig
  min_spacing :: real
  cell_size :: real
  spatial_index :: "((int \<times> int) \<times> string list) list"
  positions :: "(string \<times> Vector2D) list"

definition new_engine :: "SpacingConfig \<Rightarrow> SpacingEngine" where
  "new_engine c =
     \<lparr>sp_config = c, min_spacing = cfg_min_spacing c, cell_size = grid_cell_size c,
      spatial_index = [], positions = []\<rparr>"

text \<open>Float floor division raises ZeroDivisionError on a zero divisor.\<close>

definition get_cell :: "SpacingEngine \<Rightarrow> Vector2D \<Rightarrow> py_error + (int \<times> int)" where
  "get_cell eng pos =
     (if cell_size eng = 0 then Inl ZeroDivisionError
      else Inr (\<lfloor>vec_x pos / cell_size eng\<rfloor>, \<lfloor>vec_y pos / cell_size eng\<rfloor>))"

definition get_nearby_cells ::
  "SpacingEngine \<Rightarrow> Vector2D \<Rightarrow> real \<Rightarrow> py_error + (int \<times> int) list" where
  "get_nearby_cells eng pos radius =
     (case get_cell eng pos of
        Inl e \<Rightarrow> Inl e
      | Inr center_cell \<Rightarrow>
          let cells_radius = py_int (radius / cell_size eng) + 1
          in Inr (concat (map (\<lambda>dx. map (\<lambda>dy. (fst center_cell + dx, snd center_cell + dy))
                                   [- cells_radius..cells_radius])
                           [- cells_radius..cells_radius])))"

definition discard :: "string \<Rightarrow> string list \<Rightarrow> string list" where
  "discard node_id ids = removeAll node_id ids"

definition set_add :: "string \<Rightarrow> string list \<Rightarrow> string list" where
  "set_add node_id ids = (if node_id \<in> set ids then ids else ids @ [node_id])"

text \<open>
  \<^verbatim>\<open>register_node\<close>.  When a call raises, the engine it leaves behind is not part of
  the result.
\<close>

definition register_node ::
  "SpacingEngine \<Rightarrow> string \<Rightarrow> Vector2D \<Rightarrow> py_error + SpacingEngine" where
  "register_node eng node_id position =
     (case (case map_of (positions eng) node_id of
              None \<Rightarrow> Inr (spatial_index eng)
            | Some old_pos \<Rightarrow>
                (case get_cell eng old_pos of
                   Inl e \<Rightarrow> Inl e
                 | Inr old_cell \<Rightarrow>
                     (case map_of (spatial_index eng) old_cell of
                        None \<Rightarrow> Inr (spatial_index eng)
                      | Some ids \<Rightarrow>
                          Inr (AList.update old_cell (discard node_id ids) (spatial_index eng))))) of
        Inl e \<Rightarrow> Inl e
      | Inr index1 \<Rightarrow>
          (case get_cell eng position of
             Inl e \<Rightarrow> Inl e
           | Inr cell \<Rightarrow>
               let index2 = (if cell \<in> fst ` set index1 then index1
                             else AList.update cell [] index1);
                   ids = (case map_of index2 cell of None \<Rightarrow> [] | Some s \<Rightarrow> s)
               in Inr (eng\<lparr>spatial_index := AList.update cell (set_add node_id ids) index2,
                           positions := AList.update node_id position (positions eng)\<rparr>)))"

fun collect_near ::
  "(string \<times> Vector2D) list \<Rightarrow> Vector2D \<Rightarrow> real \<Rightarrow> string list \<Rightarrow> string list
     \<Rightarrow> py_error + string list" where
  "collect_near ps position radius [] nearby = Inr nearby"
| "collect_near ps position radius (node_id # ids) nearby =
     (case map_of ps node_id of
        None \<Rightarrow> Inl (KeyError node_id)
      | Some q \<Rightarrow>
          collect_near ps position radius ids
            (if distance_to q position \<le> radius then nearby @ [node_id] else nearby))"

fun scan_cells ::
  "SpacingEngine \<Rightarrow> Vector2D \<Rightarrow> real \<Rightarrow> (int \<times> int) list \<Rightarrow> string list
     \<Rightarrow> py_error + string list" where
  "scan_cells eng position radius [] nearby = Inr nearby"
| "scan_cells eng position radius (cell # cells) nearby =
     (case map_of (spatial_index eng) cell of
        None \<Rightarrow> scan_cells eng position radius cells nearby
      | Some ids \<Rightarrow>
          (case collect_near (positions eng) position radius ids nearby of
             Inl e \<Rightarrow> Inl e
           | Inr nearby' \<Rightarrow> scan_cells eng position radius cells nearby'))"

text \<open>\<^verbatim>\<open>radius = radius or self.min_spacing * 2\<close>: an absent or zero radius takes the default.\<close>

definition get_nearby_nodes ::
  "SpacingEngine \<Rightarrow> Vector2D \<Rightarrow> real option \<Rightarrow> py_error + string list" where
  "get_nearby_nodes eng position radius_arg =
     (let radius = (case radius_arg of
                      None \<Rightarrow> min_spacing eng * 2
                    | Some r \<Rightarrow> if r = 0 then min_spacing eng * 2 else r)
      in case get_nearby_cells eng position radius of
           Inl e \<Rightarrow> Inl e
         | Inr cells \<Rightarrow> scan_cells eng position radius cells [])"

text \<open>
  One node's row of the force table: the inner loop of \<^verbatim>\<open>repel_nearby_nodes\<close> over the
  ids returned by \<^verbatim>\<open>get_nearby_nodes\<close>, adding to \<^verbatim>\<open>forces[node_id]\<close>.
\<close>

fun add_forces ::
  "SpacingEngine \<Rightarrow> string \<Rightarrow> Vector2D \<Rightarrow> string list \<Rightarrow> Vector2D \<Rightarrow> py_error + Vector2D" where
  "add_forces eng node_id pos [] f = Inr f"
| "add_forces eng node_id pos (other_id # rest) f =
     (if other_id = node_id then add_forces eng node_id pos rest f
      else
        case map_of (positions eng) other_id of
          None \<Rightarrow> Inl (KeyError other_id)
        | Some other_pos \<Rightarrow>
            let diff = v_sub pos other_pos;
                dist = magnitude diff
            in if dist < min_spacing eng \<and> dist > 0 then
                 let force_mag = (min_spacing eng - dist) * repulsion_strength (sp_config eng);
                     force = v_mul (normalized diff) force_mag
                 in add_forces eng node_id pos rest (v_add f force)
               else add_forces eng node_id pos rest f)"

text \<open>
  The force table, one entry per key of \<^verbatim>\<open>positions\<close> in its order, each starting from
  the zero vector.  Positions are only read in this phase.
\<close>

fun calc_forces ::
  "SpacingEngine \<Rightarrow> (string \<times> Vector2D) list \<Rightarrow> py_error + (string \<times> Vector2D) list" where
  "calc_forces eng [] = Inr []"
| "calc_forces eng ((node_id, pos) # rest) =
     (case get_nearby_nodes eng pos None of
        Inl e \<Rightarrow> Inl e
      | Inr near \<Rightarrow>
          (case add_forces eng node_id pos near v_zero of
             Inl e \<Rightarrow> Inl e
           | Inr f \<Rightarrow>
               (case calc_forces eng rest of
                  Inl e \<Rightarrow> Inl e
                | Inr fs \<Rightarrow> Inr ((node_id, f) # fs))))"

text \<open>
  Applying the forces.  The node table is reduced to the one attribute the function
  writes, each node's \<^verbatim>\<open>position\<close> tuple.
\<close>

fun apply_forces ::
  "SpacingEngine \<Rightarrow> (string \<rightharpoonup> real \<times> real) \<Rightarrow> (string \<times> Vector2D) list
     \<Rightarrow> py_error + (SpacingEngine \<times> (string \<rightharpoonup> real \<times> real))" where
  "apply_forces eng nodes [] = Inr (eng, nodes)"
| "apply_forces eng nodes ((node_id, force) # rest) =
     (if magnitude force > 0 then
        (case map_of (positions eng) node_id of
           None \<Rightarrow> Inl (KeyError node_id)
         | Some q \<Rightarrow>
             let new_pos = v_add q force
             in (case register_node eng node_id new_pos of
                   Inl e \<Rightarrow> Inl e
                 | Inr eng' \<Rightarrow>
                     apply_forces eng'
                       (if node_id \<in> dom nodes then nodes(node_id \<mapsto> to_tuple new_pos) else nodes)
                       rest))
      else apply_forces eng nodes rest)"

fun repel_iterations ::
  "nat \<Rightarrow> SpacingEngine \<Rightarrow> (string \<rightharpoonup> real \<times> real)
     \<Rightarrow> py_error + (SpacingEngine \<times> (string \<rightharpoonup> real \<times> real))" where
  "repel_iterations 0 eng nodes = Inr (eng, nodes)"
| "repel_iterations (Suc k) eng nodes =
     (case calc_forces eng (positions eng) of
        Inl e \<Rightarrow> Inl e
      | Inr forces \<Rightarrow>
          (case apply_forces eng nodes forces of
             Inl e \<Rightarrow> Inl e
           | Inr (eng', nodes') \<Rightarrow> repel_iterations k eng' nodes'))"

definition repel_nearby_nodes ::
  "SpacingEngine \<Rightarrow> (string \<rightharpoonup> real \<times> real) \<Rightarrow> int option
     \<Rightarrow> py_error + (SpacingEngine \<times> (string \<rightharpoonup> real \<times> real))" where
  "repel_nearby_nodes eng nodes iterations_arg =
     (let iterations = (case iterations_arg of
                          None \<Rightarrow> repulsion_iterations (sp_config eng)
                        | Some i \<Rightarrow> if i = 0 then repulsion_iterations (sp_config eng) else i)
      in repel_iterations (nat iterations) eng nodes)"

text \<open>Registering a list of nodes one after the other.\<close>

fun register_all ::
  "SpacingEngine \<Rightarrow> (string \<times> Vector2D) list \<Rightarrow> py_error + SpacingEngine" where
  "register_all eng [] = Inr eng"
| "register_all eng ((node_id, position) # rest) =
     (case register_node eng node_id position of
        Inl e \<Rightarrow> Inl e
      | Inr eng' \<Rightarrow> register_all eng' rest)"

text \<open>
  The measure of the repulsion scenario: the number of unordered pairs of registered
  nodes whose distance is below \<^verbatim>\<open>min_spacing\<close>.
\<close>

fun pairs :: "'a list \<Rightarrow> ('a \<times> 'a) list" where
  "pairs [] = []"
| "pairs (a # rest) = map (Pair a) rest @ pairs rest"

definition close_pairs :: "SpacingEngine \<Rightarrow> nat" where
  "close_pairs eng =
     length (filter (\<lambda>(a, b). distance_to (snd a) (snd b) < min_spacing eng)
               (pairs (positions eng)))"

text \<open>The scenario: \<open>n\<close> nodes with distinct ids, all registered at one position.\<close>

definition node_name :: "nat \<Rightarrow> string" where
  "node_name i = replicate (Suc i) (CHR ''n'')"

definition cluster :: "SpacingConfig \<Rightarrow> nat \<Rightarrow> Vector2D \<Rightarrow> py_error + SpacingEngine" where
  "cluster c n p = register_all (new_engine c) (map (\<lambda>i. (node_name i, p)) [0..<n])"

section \<open>Properties of the spacing engine\<close>

definition same_spot :: "SpacingEngine \<Rightarrow> Vector2D \<Rightarrow> bool" where
  "same_spot eng p \<longleftrightarrow>
     (\<forall>e \<in> set (positions eng). snd e = p)
     \<and> (\<forall>e \<in> set (spatial_index eng). set (snd e) \<subseteq> fst ` set (positions eng))
     \<and> cell_size eng \<noteq> 0"

lemma magnitude_self_diff [simp]: "magnitude (v_sub p p) = 0"
  by (simp add: magnitude_def v_sub_def)

lemma magnitude_zero [simp]: "magnitude v_zero = 0"
  by (simp add: magnitude_def v_zero_def)

lemma in_update_entries:
  "e \<in> set (AList.update k v al) \<Longrightarrow> e = (k, v) \<or> e \<in> set al"
  by (induction al) (auto split: if_splits)

lemma update_fresh: "k \<notin> fst ` set al \<Longrightarrow> AList.update k v al = al @ [(k, v)]"
  by (induction al) auto

lemma keys_update: "fst ` set (AList.update k v al) = insert k (fst ` set al)"
  using dom_update [of k v al] by (simp add: dom_map_of_conv_image_fst)

lemma collect_near_ok:
  "set ids \<subseteq> fst ` set ps \<Longrightarrow>
   \<exists>near'. collect_near ps position radius ids nearby = Inr near'
            \<and> set near' \<subseteq> set nearby \<union> set ids"
proof (induction ids arbitrary: nearby)
  case Nil
  then show ?case by simp
next
  case (Cons i ids)
  from Cons.prems obtain q where q: "map_of ps i = Some q"
    by (cases "map_of ps i") (auto simp add: map_of_eq_None_iff)
  from Cons.prems have sub: "set ids \<subseteq> fst ` set ps" by simp
  from Cons.IH [OF sub, of "if distance_to q position \<le> radius then nearby @ [i] else nearby"]
  show ?case using q by (auto split: if_splits)
qed

lemma scan_cells_ok:
  assumes "\<forall>e \<in> set (spatial_index eng). set (snd e) \<subseteq> fst ` set (positions eng)"
  shows "set nearby \<subseteq> fst ` set (positions eng) \<Longrightarrow>
         \<exists>near'. scan_cells eng position radius cells nearby = Inr near'
            \<and> set near' \<subseteq> fst ` set (positions eng)"
proof (induction cells arbitrary: nearby)
  case Nil
  then show ?case by simp
next
  case (Cons cell cells)
  show ?case
  proof (cases "map_of (spatial_index eng) cell")
    case None
    then show ?thesis using Cons by simp
  next
    case (Some ids)
    then have "(cell, ids) \<in> set (spatial_index eng)" by (rule map_of_SomeD)
    with assms have sub: "set ids \<subseteq> fst ` set (positions eng)" by force
    from collect_near_ok [OF sub, of position radius nearby]
    obtain n1 where n1: "collect_near (positions eng) position radius ids nearby = Inr n1"
      "set n1 \<subseteq> set nearby \<union> set ids" by blast
    then have "set n1 \<subseteq> fst ` set (positions eng)" using sub Cons.prems by blast
    from Cons.IH [OF this] show ?thesis using Some n1 by simp
  qed
qed

lemma get_nearby_nodes_ok:
  assumes "same_spot eng p"
  shows "\<exists>near. get_nearby_nodes eng position r = Inr near
            \<and> set near \<subseteq> fst ` set (positions eng)"
proof -
  from assms have idx: "\<forall>e \<in> set (spatial_index eng). set (snd e) \<subseteq> fst ` set (positions eng)"
    and cs: "cell_size eng \<noteq> 0" by (simp_all add: same_spot_def)
  obtain cells where c: "\<And>radius. \<exists>cells. get_nearby_cells eng position radius = Inr cells"
    using cs by (simp add: get_nearby_cells_def get_cell_def Let_def)
  show ?thesis
    unfolding get_nearby_nodes_def Let_def
    using c scan_cells_ok [OF idx, of "[]"]
    by (metis (no_types, lifting) empty_set empty_subsetI sum.case(2))
qed

lemma add_forces_same:
  assumes "\<forall>e \<in> set (positions eng). snd e = p"
  shows "set near \<subseteq> fst ` set (positions eng) \<Longrightarrow> add_forces eng node_id p near f = Inr f"
proof (induction near)
  case Nil
  then show ?case by simp
next
  case (Cons other near)
  from Cons.prems obtain q where q: "map_of (positions eng) other = Some q"
    by (cases "map_of (positions eng) other") (auto simp add: map_of_eq_None_iff)
  then have "(other, q) \<in> set (positions eng)" by (rule map_of_SomeD)
  with assms have "q = p" by force
  then show ?case using Cons q by (simp add: Let_def)
qed

lemma calc_forces_same:
  assumes "same_spot eng p"
  shows "set ps \<subseteq> set (positions eng) \<Longrightarrow>
         calc_forces eng ps = Inr (map (\<lambda>e. (fst e, v_zero)) ps)"
proof (induction ps)
  case Nil
  then show ?case by simp
next
  case (Cons e ps)
  obtain i q where e: "e = (i, q)" by (cases e)
  from assms have all: "\<forall>e \<in> set (positions eng). snd e = p" by (simp add: same_spot_def)
  with Cons.prems e have "q = p" by force
  from get_nearby_nodes_ok [OF assms, of p None]
  obtain near where near: "get_nearby_nodes eng p None = Inr near"
    "set near \<subseteq> fst ` set (positions eng)" by blast
  have "add_forces eng i p near v_zero = Inr v_zero"
    by (rule add_forces_same [OF all near(2)])
  then show ?case using Cons e \<open>q = p\<close> near by simp
qed

lemma apply_forces_zero:
  "\<forall>e \<in> set fs. magnitude (snd e) = 0 \<Longrightarrow> apply_forces eng nodes fs = Inr (eng, nodes)"
  by (induction fs) auto

lemma repel_iterations_same:
  assumes "same_spot eng p"
  shows "repel_iterations k eng nodes = Inr (eng, nodes)"
proof (induction k)
  case 0
  then show ?case by simp
next
  case (Suc k)
  have c: "calc_forces eng (positions eng) = Inr (map (\<lambda>e. (fst e, v_zero)) (positions eng))"
    by (rule calc_forces_same [OF assms]) simp
  have a: "apply_forces eng nodes (map (\<lambda>e. (fst e, v_zero)) (positions eng)) = Inr (eng, nodes)"
    by (rule apply_forces_zero) simp
  show ?case using c a Suc by simp
qed

lemma repel_nearby_nodes_same:
  "same_spot eng p \<Longrightarrow> repel_nearby_nodes eng nodes its = Inr (eng, nodes)"
  by (simp add: repel_nearby_nodes_def Let_def repel_iterations_same)

lemma register_node_fresh:
  assumes inv: "same_spot eng p" and fresh: "node_id \<notin> fst ` set (positions eng)"
  shows "\<exists>eng'. register_node eng node_id p = Inr eng' \<and> same_spot eng' p
           \<and> positions eng' = positions eng @ [(node_id, p)]
           \<and> min_spacing eng' = min_spacing eng"
proof -
  from inv have all: "\<forall>e \<in> set (positions eng). snd e = p"
    and idx: "\<forall>e \<in> set (spatial_index eng). set (snd e) \<subseteq> fst ` set (positions eng)"
    and cs: "cell_size eng \<noteq> 0" by (simp_all add: same_spot_def)
  from fresh have none: "map_of (positions eng) node_id = None"
    by (simp add: map_of_eq_None_iff)
  define cell where "cell = (\<lfloor>vec_x p / cell_size eng\<rfloor>, \<lfloor>vec_y p / cell_size eng\<rfloor>)"
  have gc: "get_cell eng p = Inr cell" using cs by (simp add: get_cell_def cell_def)
  define index2 where "index2 = (if cell \<in> fst ` set (spatial_index eng) then spatial_index eng
                             else AList.update cell [] (spatial_index eng))"
  define ids where "ids = (case map_of index2 cell of None \<Rightarrow> [] | Some s \<Rightarrow> s)"
  define eng' where "eng' = eng\<lparr>spatial_index := AList.update cell (set_add node_id ids) index2,
                           positions := AList.update node_id p (positions eng)\<rparr>"
  have r: "register_node eng node_id p = Inr eng'"
    using none gc by (simp add: register_node_def Let_def eng'_def ids_def index2_def)
  have pos: "positions eng' = positions eng @ [(node_id, p)]"
    using fresh by (simp add: eng'_def update_fresh)
  have idx2: "\<forall>e \<in> set index2. set (snd e) \<subseteq> fst ` set (positions eng)"
    using idx by (auto simp add: index2_def dest!: in_update_entries)
  have "set ids \<subseteq> fst ` set (positions eng)"
  proof (cases "map_of index2 cell")
    case None
    then show ?thesis by (simp add: ids_def)
  next
    case (Some s)
    then have "(cell, s) \<in> set index2" by (rule map_of_SomeD)
    with idx2 show ?thesis using Some by (force simp add: ids_def)
  qed
  then have add: "set (set_add node_id ids) \<subseteq> fst ` set (positions eng')"
    by (auto simp add: set_add_def pos)
  have "\<forall>e \<in> set (spatial_index eng'). set (snd e) \<subseteq> fst ` set (positions eng')"
  proof
    fix e assume "e \<in> set (spatial_index eng')"
    then have "e = (cell, set_add node_id ids) \<or> e \<in> set index2"
      by (auto simp add: eng'_def dest: in_update_entries)
    then show "set (snd e) \<subseteq> fst ` set (positions eng')"
      using add idx2 by (auto simp add: pos)
  qed
  moreover have "\<forall>e \<in> set (positions eng'). snd e = p" using all by (auto simp add: pos)
  moreover have "cell_size eng' \<noteq> 0" using cs by (simp add: eng'_def)
  ultimately have "same_spot eng' p" by (simp add: same_spot_def)
  moreover have "min_spacing eng' = min_spacing eng" by (simp add: eng'_def)
  ultimately show ?thesis using r pos by blast
qed

lemma register_all_fresh:
  "same_spot eng p \<Longrightarrow> distinct ids \<Longrightarrow> set ids \<inter> fst ` set (positions eng) = {} \<Longrightarrow>
   \<exists>eng'. register_all eng (map (\<lambda>i. (i, p)) ids) = Inr eng' \<and> same_spot eng' p
           \<and> positions eng' = positions eng @ map (\<lambda>i. (i, p)) ids
           \<and> min_spacing eng' = min_spacing eng"
proof (induction ids arbitrary: eng)
  case Nil
  then show ?case by simp
next
  case (Cons i ids)
  from Cons.prems have "i \<notin> fst ` set (positions eng)" by auto
  from register_node_fresh [OF Cons.prems(1) this]
  obtain e1 where e1: "register_node eng i p = Inr e1" "same_spot e1 p"
    "positions e1 = positions eng @ [(i, p)]" "min_spacing e1 = min_spacing eng" by blast
  have "set ids \<inter> fst ` set (positions e1) = {}"
    using Cons.prems by (auto simp add: e1(3))
  from Cons.IH [OF e1(2) _ this] Cons.prems
  obtain e2 where "register_all e1 (map (\<lambda>i. (i, p)) ids) = Inr e2" "same_spot e2 p"
    "positions e2 = positions e1 @ map (\<lambda>i. (i, p)) ids" "min_spacing e2 = min_spacing e1"
    by auto
  then show ?case using e1 by simp
qed

lemma node_name_inj: "inj node_name"
proof (rule injI)
  fix i j assume "node_name i = node_name j"
  then have "length (node_name i) = length (node_name j)" by simp
  then show "i = j" by (simp add: node_name_def)
qed

lemma cluster_ok:
  assumes "grid_cell_size c \<noteq> 0"
  shows "\<exists>eng. cluster c n p = Inr eng \<and> same_spot eng p
           \<and> positions eng = map (\<lambda>i. (node_name i, p)) [0..<n]
           \<and> min_spacing eng = cfg_min_spacing c"
proof -
  have s: "same_spot (new_engine c) p" using assms by (simp add: same_spot_def new_engine_def)
  have d: "distinct (map node_name [0..<n])"
    by (simp add: distinct_map inj_on_subset [OF node_name_inj])
  from register_all_fresh [OF s d] show ?thesis
    by (simp add: cluster_def new_engine_def comp_def)
qed

lemma twice_length_pairs: "2 * length (pairs xs) = length xs * (length xs - 1)"
proof (induction xs)
  case Nil
  then show ?case by simp
next
  case (Cons a xs)
  show ?case
  proof (cases xs)
    case Nil
    then show ?thesis by simp
  next
    case (Cons b ys)
    with Cons.IH show ?thesis by (simp add: algebra_simps)
  qed
qed

lemma length_pairs: "length (pairs xs) = length xs * (length xs - 1) div 2"
  using twice_length_pairs [of xs] by simp

lemma in_pairs: "(a, b) \<in> set (pairs xs) \<Longrightarrow> a \<in> set xs \<and> b \<in> set xs"
  by (induction xs) auto

lemma close_pairs_same:
  assumes "same_spot eng p" and "0 < min_spacing eng"
  shows "close_pairs eng = length (positions eng) * (length (positions eng) - 1) div 2"
proof -
  from assms have all: "\<forall>e \<in> set (positions eng). snd e = p" by (simp add: same_spot_def)
  have "filter (\<lambda>(a, b). distance_to (snd a) (snd b) < min_spacing eng) (pairs (positions eng))
          = pairs (positions eng)"
  proof (rule filter_True, clarify)
    fix a1 a2 b1 b2 assume "((a1, a2), (b1, b2)) \<in> set (pairs (positions eng))"
    then have "(a1, a2) \<in> set (positions eng)" "(b1, b2) \<in> set (positions eng)"
      by (auto dest: in_pairs)
    with all have "a2 = p" "b2 = p" by auto
    then show "distance_to (snd (a1, a2)) (snd (b1, b2)) < min_spacing eng"
      using assms(2) by (simp add: distance_to_def)
  qed
  then show ?thesis by (simp add: close_pairs_def length_pairs)
qed

definition origin_cluster40 :: SpacingEngine where
  "origin_cluster40 =
     (case cluster default_spacing 40 v_zero of
        Inr eng \<Rightarrow> eng
      | Inl e \<Rightarrow> new_engine default_spacing)"

text \<open>
  Claim C8 as stated fails: with 40 nodes registered at the origin and
  \<^verbatim>\<open>min_spacing = 1.0\<close>, the count of pairs closer than \<^verbatim>\<open>min_spacing\<close> is 780 before
  an iteration of \<^verbatim>\<open>repel_nearby_nodes\<close> and still 780 after it.
\<close>

theorem coincident_cluster_counterexample:
  "min_spacing origin_cluster40 = 1
   \<and> close_pairs origin_cluster40 = 780
   \<and> map_sum id (\<lambda>r. close_pairs (fst r))
        (repel_nearby_nodes origin_cluster40 Map.empty (Some 1)) = Inr 780"
proof -
  have "grid_cell_size default_spacing \<noteq> 0" by (simp add: default_spacing_def)
  from cluster_ok [OF this, of 40 v_zero]
  obtain eng where e: "cluster default_spacing 40 v_zero = Inr eng" "same_spot eng v_zero"
    "positions eng = map (\<lambda>i. (node_name i, v_zero)) [0..<40]"
    "min_spacing eng = cfg_min_spacing default_spacing" by blast
  have o: "origin_cluster40 = eng" by (simp add: origin_cluster40_def e(1))
  have m: "min_spacing eng = 1" by (simp add: e(4) default_spacing_def)
  have "close_pairs eng = 40 * (40 - 1) div 2"
    using close_pairs_same [OF e(2)] m by (simp add: e(3))
  then have c: "close_pairs eng = 780" by simp
  have "repel_nearby_nodes eng Map.empty (Some 1) = Inr (eng, Map.empty)"
    by (rule repel_nearby_nodes_same [OF e(2)])
  then show ?thesis using o m c by simp
qed

text \<open>
  Claim C8, amended.  For nodes all registered at one position the repulsion applies no
  force: a pair at distance 0 is skipped by the guard \<^verbatim>\<open>dist > 0\<close>, so every call of
  \<^verbatim>\<open>repel_nearby_nodes\<close>, whatever its iteration count, returns the engine and the node
  table as they were, and with a positive \<^verbatim>\<open>min_spacing\<close> the count of close pairs stays
  at \<open>n (n - 1) / 2\<close>, which is 780 for 40 nodes.
  (On floats \<open>p - p\<close> is exactly zero for every finite \<open>p\<close>, as on the reals.)
\<close>

theorem coincident_cluster_is_fixed:
  assumes "grid_cell_size c \<noteq> 0"
  shows "\<exists>eng. cluster c n p = Inr eng
           \<and> map fst (positions eng) = map node_name [0..<n]
           \<and> (\<forall>e \<in> set (positions eng). snd e = p)
           \<and> (\<forall>nodes its. repel_nearby_nodes eng nodes its = Inr (eng, nodes))
           \<and> (0 < cfg_min_spacing c \<longrightarrow> close_pairs eng = n * (n - 1) div 2)"
proof -
  from cluster_ok [OF assms, of n p]
  obtain eng where e: "cluster c n p = Inr eng" "same_spot eng p"
    "positions eng = map (\<lambda>i. (node_name i, p)) [0..<n]"
    "min_spacing eng = cfg_min_spacing c" by blast
  have "map fst (positions eng) = map node_name [0..<n]" by (simp add: e(3) comp_def)
  moreover have "\<forall>e \<in> set (positions eng). snd e = p" by (auto simp add: e(3))
  moreover have "\<forall>nodes its. repel_nearby_nodes eng nodes its = Inr (eng, nodes)"
    using repel_nearby_nodes_same [OF e(2)] by simp
  moreover have "0 < cfg_min_spacing c \<longrightarrow> close_pairs eng = n * (n - 1) div 2"
    using close_pairs_same [OF e(2)] by (simp add: e(3) e(4))
  ultimately show ?thesis using e(1) by blast
qed

theorem coincident_cluster_is_fixed_witness:
  "grid_cell_size default_spacing \<noteq> 0
   \<and> 0 < cfg_min_spacing default_spacing
   \<and> (\<exists>eng. cluster default_spacing 40 v_zero = Inr eng
         \<and> length (positions eng) = 40
         \<and> repel_nearby_nodes eng Map.empty None = Inr (eng, Map.empty)
         \<and> close_pairs eng = 780)"
proof -
  have h: "grid_cell_size default_spacing \<noteq> 0" by (simp add: default_spacing_def)
  have m: "0 < cfg_min_spacing default_spacing" by (simp add: default_spacing_def)
  from coincident_cluster_is_fixed [OF h, of 40 v_zero] m
  obtain eng where e: "cluster default_spacing 40 v_zero = Inr eng"
    "map fst (positions eng) = map node_name [0..<40]"
    "repel_nearby_nodes eng Map.empty None = Inr (eng, Map.empty)"
    "close_pairs eng = 40 * (40 - 1) div 2" by blast
  from e(2) have "length (map fst (positions eng)) = length (map node_name [0..<40])" by simp
  then have "length (positions eng) = 40" by simp
  moreover from e(4) have "close_pairs eng = 780" by simp
  ultimately show ?thesis using h m e(1) e(3) by blast
qed

section \<open>Tree builder (tree\_builder.py)\<close>

subsection \<open>The node table\<close>

text \<open>
  Modelled from the spec: the class \<^verbatim>\<open>TreeNode\<close> and the function \<^verbatim>\<open>link_nodes\<close> of
  \<^verbatim>\<open>core/node.py\<close>, which is not among the sources.  The spec (section 3) gives a node
  its tier, theme, depth and the two id collections \<^verbatim>\<open>children\<close> and
  \<^verbatim>\<open>prerequisites\<close>; the builder treats both as Python lists used as sets
  (\<^verbatim>\<open>append\<close> guarded by \<^verbatim>\<open>not in\<close>, \<^verbatim>\<open>remove\<close>).  A node is stored under its
  \<^verbatim>\<open>form_id\<close> (tree\_builder.py:311), so the key of the table stands for that field.
\<close>

record TreeNode =
  tier :: string
  theme :: string
  depth :: int
  children :: "string list"
  prerequisites :: "string list"

text \<open>The dictionary \<^verbatim>\<open>nodes\<close>, in insertion order.\<close>

type_synonym node_table = "(string \<times> TreeNode) list"

text \<open>
  Modelled from the spec: \<^verbatim>\<open>TreeNode.add_child\<close> and \<^verbatim>\<open>TreeNode.add_prerequisite\<close>
  (absent \<^verbatim>\<open>core/node.py\<close>); the spec's collections are sets, so an id already present is
  not added again.
\<close>

definition add_child :: "string \<Rightarrow> TreeNode \<Rightarrow> TreeNode" where
  "add_child child_id n =
     (if child_id \<in> set (children n) then n else n\<lparr>children := children n @ [child_id]\<rparr>)"

definition add_prerequisite :: "string \<Rightarrow> TreeNode \<Rightarrow> TreeNode" where
  "add_prerequisite prereq_id n =
     (if prereq_id \<in> set (prerequisites n) then n
      else n\<lparr>prerequisites := prerequisites n @ [prereq_id]\<rparr>)"

text \<open>A method call on the node stored under a key; a key outside the table is left alone.\<close>

definition on_node :: "string \<Rightarrow> (TreeNode \<Rightarrow> TreeNode) \<Rightarrow> node_table \<Rightarrow> node_table" where
  "on_node k f t = (case map_of t k of None \<Rightarrow> t | Some n \<Rightarrow> AList.update k (f n) t)"

text \<open>
  Modelled from the spec: \<^verbatim>\<open>link_nodes(parent, child)\<close> (absent \<^verbatim>\<open>core/node.py\<close>): "the two
  nodes are linked (children/prerequisites updated bidirectionally)", the child one level
  below its parent.
\<close>

definition link_nodes :: "string \<Rightarrow> string \<Rightarrow> node_table \<Rightarrow> node_table" where
  "link_nodes parent_id child_id t =
     (case map_of t parent_id of
        None \<Rightarrow> t
      | Some parent \<Rightarrow>
          on_node child_id (\<lambda>c. (add_prerequisite parent_id c)\<lparr>depth := depth parent + 1\<rparr>)
            (on_node parent_id (add_child child_id) t))"

definition TIER_ORDER :: "string list" where
  "TIER_ORDER = [''Novice'', ''Apprentice'', ''Adept'', ''Expert'', ''Master'']"

fun index_of :: "'a list \<Rightarrow> 'a \<Rightarrow> nat option" where
  "index_of [] v = None"
| "index_of (a # rest) v =
     (if a = v then Some 0 else map_option Suc (index_of rest v))"

definition tier_to_depth :: "string \<Rightarrow> int" where
  "tier_to_depth tr = (case index_of TIER_ORDER tr of Some i \<Rightarrow> int i | None \<Rightarrow> 0)"

subsection \<open>Breadth-first traversals\<close>

text \<open>
  The loop shared by \<^verbatim>\<open>_get_reachable_from_root\<close> and \<^verbatim>\<open>_is_descendant\<close>: a queue of ids
  and the set of visited ids (kept in visiting order).  \<open>stop\<close> is the id at which
  \<^verbatim>\<open>_is_descendant\<close> returns early, \<open>None\<close> for the full traversal; the result says
  whether the loop returned early and what it had visited.
\<close>

definition all_children :: "node_table \<Rightarrow> string set" where
  "all_children t = (\<Union>e \<in> set t. set (children (snd e)))"

function bfs :: "node_table \<Rightarrow> string option \<Rightarrow> string list \<Rightarrow> string list \<Rightarrow> bool \<times> string list" where
  "bfs t stop [] visited = (False, visited)"
| "bfs t stop (fid # queue) visited =
     (if fid \<in> set visited then bfs t stop queue visited
      else if stop = Some fid then (True, visited @ [fid])
      else bfs t stop
             (queue @ (case map_of t fid of None \<Rightarrow> [] | Some n \<Rightarrow> children n))
             (visited @ [fid]))"
  by pat_completeness auto
termination
proof (relation "measures [\<lambda>(t, stop, queue, visited).
                              card ((set queue \<union> all_children t) - set visited),
                           \<lambda>(t, stop, queue, visited). length queue]")
  show "wf (measures [\<lambda>(t, stop, queue, visited).
                              card ((set queue \<union> all_children t) - set visited),
                           \<lambda>(t, stop, queue, visited). length queue])"
    by simp
next
  fix t :: node_table and stop :: "string option" and fid :: string
    and queue visited :: "string list"
  assume "fid \<in> set visited"
  have "(set queue \<union> all_children t) - set visited
          \<subseteq> (set (fid # queue) \<union> all_children t) - set visited" by auto
  moreover have "finite ((set (fid # queue) \<union> all_children t) - set visited)"
    by (simp add: all_children_def)
  ultimately have "card ((set queue \<union> all_children t) - set visited)
          \<le> card ((set (fid # queue) \<union> all_children t) - set visited)"
    by (rule card_mono [rotated])
  then show "((t, stop, queue, visited), (t, stop, fid # queue, visited))
        \<in> measures [\<lambda>(t, stop, queue, visited).
                              card ((set queue \<union> all_children t) - set visited),
                           \<lambda>(t, stop, queue, visited). length queue]"
    by auto
next
  fix t :: node_table and stop :: "string option" and fid :: string
    and queue visited :: "string list"
  assume nv: "fid \<notin> set visited"
  define kids where "kids = (case map_of t fid of None \<Rightarrow> [] | Some n \<Rightarrow> children n)"
  have "set kids \<subseteq> all_children t"
  proof (cases "map_of t fid")
    case None
    then show ?thesis by (simp add: kids_def)
  next
    case (Some n)
    then have "(fid, n) \<in> set t" by (rule map_of_SomeD)
    then show ?thesis using Some by (force simp add: kids_def all_children_def)
  qed
  then have "(set (queue @ kids) \<union> all_children t) - set (visited @ [fid])
          \<subset> (set (fid # queue) \<union> all_children t) - set visited"
    using nv by auto
  moreover have "finite ((set (fid # queue) \<union> all_children t) - set visited)"
    by (simp add: all_children_def)
  ultimately have "card ((set (queue @ kids) \<union> all_children t) - set (visited @ [fid]))
          < card ((set (fid # queue) \<union> all_children t) - set visited)"
    by (rule psubset_card_mono [rotated])
  then show "((t, stop, queue @ (case map_of t fid of None \<Rightarrow> [] | Some n \<Rightarrow> children n),
               visited @ [fid]), (t, stop, fid # queue, visited))
        \<in> measures [\<lambda>(t, stop, queue, visited).
                              card ((set queue \<union> all_children t) - set visited),
                           \<lambda>(t, stop, queue, visited). length queue]"
    by (simp add: kids_def)
qed

definition get_reachable_from_root :: "node_table \<Rightarrow> string \<Rightarrow> string list" where
  "get_reachable_from_root t root_id = snd (bfs t None [root_id] [])"

definition is_descendant :: "string \<Rightarrow> string \<Rightarrow> node_table \<Rightarrow> bool" where
  "is_descendant potential_ancestor node_id t = fst (bfs t (Some potential_ancestor) [node_id] [])"

subsection \<open>Unlock simulation\<close>

text \<open>
  One sweep of the \<^verbatim>\<open>for fid, node in nodes.items()\<close> loop of \<^verbatim>\<open>_simulate_unlocks\<close>: the
  unlocked set grows while the table is walked, and \<open>changed\<close> records whether it grew.
\<close>

fun unlock_sweep :: "node_table \<Rightarrow> string list \<Rightarrow> bool \<Rightarrow> string list \<times> bool" where
  "unlock_sweep [] unlocked changed = (unlocked, changed)"
| "unlock_sweep ((fid, node) # rest) unlocked changed =
     (if fid \<in> set unlocked then unlock_sweep rest unlocked changed
      else if prerequisites node = [] then unlock_sweep rest unlocked changed
      else if \<forall>p \<in> set (prerequisites node). p \<in> set unlocked
        then unlock_sweep rest (unlocked @ [fid]) True
      else unlock_sweep rest unlocked changed)"

text \<open>
  The \<^verbatim>\<open>while changed and iterations < max_iterations\<close> loop, counted down from
  \<^verbatim>\<open>max_iterations\<close>.
\<close>

fun unlock_loop :: "nat \<Rightarrow> node_table \<Rightarrow> string list \<Rightarrow> string list" where
  "unlock_loop 0 t unlocked = unlocked"
| "unlock_loop (Suc k) t unlocked =
     (case unlock_sweep t unlocked False of
        (unlocked', changed) \<Rightarrow> if changed then unlock_loop k t unlocked' else unlocked')"

definition simulate_unlocks :: "node_table \<Rightarrow> string \<Rightarrow> string list" where
  "simulate_unlocks t root_id = unlock_loop (length t + 10) t [root_id]"

subsection \<open>Convergence\<close>

text \<open>
  \<^verbatim>\<open>node.add_prerequisite(extra.form_id); extra.add_child(node.form_id)\<close>, the pair of calls
  with which both convergence passes add an edge.
\<close>

definition add_convergence_edge :: "string \<Rightarrow> string \<Rightarrow> node_table \<Rightarrow> node_table" where
  "add_convergence_edge extra_id node_id t =
     on_node extra_id (add_child node_id) (on_node node_id (add_prerequisite extra_id) t)"

text \<open>
  \<^verbatim>\<open>_enforce_high_tier_convergence\<close>.  The candidates of a node are collected from the
  table as it is when the node is reached, sorted by \<^verbatim>\<open>(-different_theme, -depth)\<close> with
  Python's stable sort, and the first \<^verbatim>\<open>prereqs_needed\<close> of them are linked.
\<close>

definition enforce_candidates ::
  "node_table \<Rightarrow> string list \<Rightarrow> string \<Rightarrow> TreeNode \<Rightarrow> (string \<times> TreeNode) list" where
  "enforce_candidates t reachable fid node =
     filter (\<lambda>(cand_id, cand).
               cand_id \<noteq> fid
               \<and> cand_id \<notin> set (prerequisites node)
               \<and> cand_id \<in> set reachable
               \<and> \<not> depth cand \<ge> depth node
               \<and> \<not> is_descendant cand_id fid t) t"

definition enforce_sort_key :: "TreeNode \<Rightarrow> string \<times> TreeNode \<Rightarrow> int \<times> int" where
  "enforce_sort_key node c = (- (if theme (snd c) \<noteq> theme node then 1 else 0), - depth (snd c))"

definition enforce_node :: "string list \<Rightarrow> string \<Rightarrow> string \<Rightarrow> node_table \<Rightarrow> node_table" where
  "enforce_node reachable root_id fid t =
     (case map_of t fid of
        None \<Rightarrow> t
      | Some node \<Rightarrow>
          if fid = root_id then t
          else
            let tier_depth = tier_to_depth (tier node);
                current_prereqs = int (length (prerequisites node))
            in if tier_depth < 3 then t
               else
                 let min_prereqs = (if tier_depth \<ge> 4 then 3 else 2)
                 in if current_prereqs \<ge> min_prereqs then t
                    else
                      let prereqs_needed = min_prereqs - current_prereqs;
                          candidates = sort_key (enforce_sort_key node)
                                         (enforce_candidates t reachable fid node)
                      in fold (\<lambda>c. add_convergence_edge (fst c) fid)
                           (take (nat prereqs_needed) candidates) t)"

definition enforce_high_tier_convergence :: "node_table \<Rightarrow> string \<Rightarrow> node_table" where
  "enforce_high_tier_convergence t root_id =
     (let reachable = get_reachable_from_root t root_id
      in fold (enforce_node reachable root_id) (map fst t) t)"

text \<open>
  \<^verbatim>\<open>_maybe_add_convergence\<close>.  \<^verbatim>\<open>available\<close> maps a depth to the nodes offered as parents;
  it holds the node objects of the table, here their ids.  \<^verbatim>\<open>random.choice\<close> draws an
  index into a non-empty list.
\<close>

definition random_choice :: "'a list \<Rightarrow> rng \<Rightarrow> 'a \<times> rng" where
  "random_choice xs g = (xs ! (g 0 mod length xs), rng_tail g)"

definition convergence_different ::
  "node_table \<Rightarrow> string list \<Rightarrow> string \<Rightarrow> TreeNode \<Rightarrow> string list \<Rightarrow> string list" where
  "convergence_different t reachable node_id node candidates =
     filter (\<lambda>p. (case map_of t p of
                     None \<Rightarrow> False
                   | Some pn \<Rightarrow> theme pn \<noteq> theme node)
                 \<and> p \<notin> set (prerequisites node)
                 \<and> p \<in> set reachable
                 \<and> \<not> is_descendant p node_id t) candidates"

text \<open>The \<^verbatim>\<open>for depth in range(node.depth - 1, -1, -1)\<close> loop: the first depth with a
  candidate gets the edge.\<close>

fun convergence_pick ::
  "(int \<times> string list) list \<Rightarrow> string list \<Rightarrow> string \<Rightarrow> int list \<Rightarrow> node_table \<Rightarrow> rng
     \<Rightarrow> node_table \<times> rng" where
  "convergence_pick available reachable node_id [] t g = (t, g)"
| "convergence_pick available reachable node_id (d # ds) t g =
     (case map_of t node_id of
        None \<Rightarrow> (t, g)
      | Some node \<Rightarrow>
          let candidates = (case map_of available d of None \<Rightarrow> [] | Some ps \<Rightarrow> ps);
              different = convergence_different t reachable node_id node candidates
          in if different \<noteq> [] then
               (case random_choice different g of
                  (extra, g') \<Rightarrow> (add_convergence_edge extra node_id t, g'))
             else convergence_pick available reachable node_id ds t g)"

text \<open>The \<^verbatim>\<open>for _ in range(prereqs_to_add)\<close> loop.\<close>

fun convergence_rounds ::
  "nat \<Rightarrow> int \<Rightarrow> (int \<times> string list) list \<Rightarrow> string list \<Rightarrow> string \<Rightarrow> node_table \<Rightarrow> rng
     \<Rightarrow> node_table \<times> rng" where
  "convergence_rounds 0 max_prereqs available reachable node_id t g = (t, g)"
| "convergence_rounds (Suc k) max_prereqs available reachable node_id t g =
     (case map_of t node_id of
        None \<Rightarrow> (t, g)
      | Some node \<Rightarrow>
          if int (length (prerequisites node)) \<ge> max_prereqs then (t, g)
          else
            (case convergence_pick available reachable node_id
                    (rev [0..depth node - 1]) t g of
               (t', g') \<Rightarrow> convergence_rounds k max_prereqs available reachable node_id t' g'))"

definition tier_multiplier :: "int \<Rightarrow> real" where
  "tier_multiplier d =
     (if d = 0 then 1 / 2 else if d = 1 then 1 else if d = 2 then 3 / 2
      else if d = 3 then 2 else if d = 4 then 10 else 1)"

definition tier_max_prereqs :: "int \<Rightarrow> int" where
  "tier_max_prereqs d =
     (if d = 0 then 1 else if d = 1 then 2 else if d = 2 then 2
      else if d = 3 then 3 else if d = 4 then 4 else 2)"

definition maybe_add_convergence ::
  "real \<Rightarrow> string \<Rightarrow> (int \<times> string list) list \<Rightarrow> node_table \<Rightarrow> string \<Rightarrow> rng
     \<Rightarrow> node_table \<times> rng" where
  "maybe_add_convergence convergence_chance node_id available t root_id g =
     (case map_of t node_id of
        None \<Rightarrow> (t, g)
      | Some node \<Rightarrow>
          let tier_depth = tier_to_depth (tier node);
              multiplier = tier_multiplier tier_depth;
              max_prereqs = tier_max_prereqs tier_depth;
              effective_chance = min 1 (convergence_chance * multiplier);
              n_prereqs = int (length (prerequisites node));
              force_convergence = ((tier_depth \<ge> 3 \<and> n_prereqs < 2)
                                   \<or> (tier_depth \<ge> 4 \<and> n_prereqs < 3));
              (skip, g1) = (if force_convergence then (False, g)
                            else (case random_random g of (r, g') \<Rightarrow> (r > effective_chance, g')))
          in if skip then (t, g1)
             else if n_prereqs \<ge> max_prereqs then (t, g1)
             else
               let reachable = get_reachable_from_root t root_id;
                   prereqs_to_add = (if tier_depth \<ge> 4 then max 1 (3 - n_prereqs)
                                     else if tier_depth \<ge> 3 then max 1 (2 - n_prereqs)
                                     else 1)
               in convergence_rounds (nat prereqs_to_add) max_prereqs available reachable
                    node_id t g1)"

subsection \<open>Reachability repair\<close>

text \<open>
  The search for \<^verbatim>\<open>best_parent\<close>.  \<^verbatim>\<open>unlockable\<close> is a Python set, and the order in which
  a set of strings is iterated is not fixed by the language; the ids arrive here in the
  order the caller chose (see \<open>ensure_all_reachable\<close>).  \<^verbatim>\<open>nodes[unlockable_id]\<close> raises
  KeyError for an id outside the table.
\<close>

fun find_best_parent ::
  "int \<Rightarrow> node_table \<Rightarrow> string \<Rightarrow> string list \<Rightarrow> string option \<Rightarrow> py_error + string option" where
  "find_best_parent max_children t fid [] best_parent = Inr best_parent"
| "find_best_parent max_children t fid (unlockable_id # rest) best_parent =
     (if unlockable_id = fid then find_best_parent max_children t fid rest best_parent
      else
        case map_of t unlockable_id of
          None \<Rightarrow> Inl (KeyError unlockable_id)
        | Some candidate \<Rightarrow>
            if int (length (children candidate)) < max_children then
              (case best_parent of
                 None \<Rightarrow> find_best_parent max_children t fid rest (Some unlockable_id)
               | Some b \<Rightarrow>
                   (case map_of t b of
                      None \<Rightarrow> Inl (KeyError b)
                    | Some best_node \<Rightarrow>
                        if depth candidate < depth best_node
                        then find_best_parent max_children t fid rest (Some unlockable_id)
                        else find_best_parent max_children t fid rest best_parent))
            else find_best_parent max_children t fid rest best_parent)"

text \<open>Taking \<^verbatim>\<open>fid\<close> out of the children of the listed nodes
  (\<^verbatim>\<open>list.remove\<close> deletes the first occurrence).\<close>

definition drop_child :: "string \<Rightarrow> string \<Rightarrow> node_table \<Rightarrow> node_table" where
  "drop_child fid parent_id t =
     (case map_of t parent_id of
        None \<Rightarrow> t
      | Some pn \<Rightarrow>
          if fid \<in> set (children pn)
          then AList.update parent_id (pn\<lparr>children := remove1 fid (children pn)\<rparr>) t
          else t)"

text \<open>Lines 840 to 860: the blocking prerequisites of \<^verbatim>\<open>fid\<close> are replaced by
  \<^verbatim>\<open>best_parent\<close>.\<close>

definition rewire :: "string \<Rightarrow> string list \<Rightarrow> string list \<Rightarrow> string \<Rightarrow> node_table \<Rightarrow> node_table" where
  "rewire fid prereqs blocking best_parent t =
     (let t1 = fold (drop_child fid) blocking t;
          kept = filter (\<lambda>p. p \<notin> set blocking) prereqs;
          t2 = on_node fid (\<lambda>n. n\<lparr>prerequisites :=
                                   (if best_parent \<in> set kept then kept else kept @ [best_parent])\<rparr>) t1;
          t3 = on_node best_parent
                 (\<lambda>n. if fid \<in> set (children n) then n else n\<lparr>children := children n @ [fid]\<rparr>) t2
      in case map_of t3 best_parent of
           None \<Rightarrow> t3
         | Some parent_node \<Rightarrow> on_node fid (\<lambda>n. n\<lparr>depth := depth parent_node + 1\<rparr>) t3)"

text \<open>The \<^verbatim>\<open>for fid in unreachable\<close> loop of one pass; \<^verbatim>\<open>if best_parent:\<close> is false for
  \<^verbatim>\<open>None\<close> and for the empty string.\<close>

fun fix_unreachable ::
  "int \<Rightarrow> string list \<Rightarrow> string list \<Rightarrow> node_table \<Rightarrow> bool \<Rightarrow> py_error + (node_table \<times> bool)" where
  "fix_unreachable max_children unlockable [] t fixed_any = Inr (t, fixed_any)"
| "fix_unreachable max_children unlockable (fid # rest) t fixed_any =
     (case map_of t fid of
        None \<Rightarrow> Inl (KeyError fid)
      | Some node \<Rightarrow>
          let prereqs = prerequisites node;
              blocking = filter (\<lambda>p. p \<notin> set unlockable) prereqs
          in if blocking \<noteq> [] then
               (case find_best_parent max_children t fid unlockable None of
                  Inl e \<Rightarrow> Inl e
                | Inr best_parent \<Rightarrow>
                    (case best_parent of
                       None \<Rightarrow> fix_unreachable max_children unlockable rest t fixed_any
                     | Some b \<Rightarrow>
                         if b \<noteq> [] then
                           fix_unreachable max_children unlockable rest
                             (rewire fid prereqs blocking b t) True
                         else fix_unreachable max_children unlockable rest t fixed_any))
             else fix_unreachable max_children unlockable rest t fixed_any)"

text \<open>The aggressive fix: every node still unreachable is hung under the root.\<close>

definition attach_to_root :: "string \<Rightarrow> string \<Rightarrow> node_table \<Rightarrow> node_table" where
  "attach_to_root root_id fid t =
     (if fid = root_id then t
      else
        case map_of t fid of
          None \<Rightarrow> t
        | Some node \<Rightarrow>
            let t1 = fold (drop_child fid) (prerequisites node) t;
                t2 = on_node fid (\<lambda>n. n\<lparr>prerequisites := [root_id]\<rparr>) t1;
                t3 = on_node root_id
                       (\<lambda>n. if fid \<in> set (children n) then n else n\<lparr>children := children n @ [fid]\<rparr>) t2
            in on_node fid (\<lambda>n. n\<lparr>depth := 1\<rparr>) t3)"

definition aggressive_fix :: "string \<Rightarrow> string list \<Rightarrow> node_table \<Rightarrow> py_error + node_table" where
  "aggressive_fix root_id unreachable t =
     (case map_of t root_id of
        None \<Rightarrow> Inl (KeyError root_id)
      | Some root_node \<Rightarrow> Inr (fold (attach_to_root root_id) unreachable t))"

text \<open>
  The \<^verbatim>\<open>for pass_num in range(max_passes)\<close> loop, counted down.  \<open>set_order\<close> stands for
  the iteration order of the set \<^verbatim>\<open>unlockable\<close>: the ids are visited by increasing
  \<open>set_order\<close>, ties in insertion order.  The final check of the function only prints.
\<close>

fun repair_passes ::
  "nat \<Rightarrow> (string \<Rightarrow> nat) \<Rightarrow> int \<Rightarrow> string \<Rightarrow> node_table \<Rightarrow> py_error + node_table" where
  "repair_passes 0 set_order max_children root_id t = Inr t"
| "repair_passes (Suc k) set_order max_children root_id t =
     (let unlockable = simulate_unlocks t root_id;
          unreachable = filter (\<lambda>fid. fid \<notin> set unlockable) (map fst t)
      in if unreachable = [] then Inr t
         else
           case fix_unreachable max_children (sort_key set_order unlockable) unreachable t False of
             Inl e \<Rightarrow> Inl e
           | Inr (t1, fixed_any) \<Rightarrow>
               if \<not> fixed_any then aggressive_fix root_id unreachable t1
               else repair_passes k set_order max_children root_id t1)"

definition ensure_all_reachable ::
  "(string \<Rightarrow> nat) \<Rightarrow> int \<Rightarrow> node_table \<Rightarrow> string \<Rightarrow> py_error + node_table" where
  "ensure_all_reachable set_order max_children t root_id =
     repair_passes 10 set_order max_children root_id t"

subsection \<open>The invariants of the node table\<close>

text \<open>
  \<open>child_rel\<close> holds the edges written in \<^verbatim>\<open>children\<close> lists, \<open>prereq_rel\<close> those written
  in \<^verbatim>\<open>prerequisites\<close> lists; both are read as "parent, child".
\<close>

definition child_rel :: "node_table \<Rightarrow> (string \<times> string) set" where
  "child_rel t = {(x, y). \<exists>n. map_of t x = Some n \<and> y \<in> set (children n)}"

definition prereq_rel :: "node_table \<Rightarrow> (string \<times> string) set" where
  "prereq_rel t = {(x, y). \<exists>n. map_of t y = Some n \<and> x \<in> set (prerequisites n)}"

definition bidirectional :: "node_table \<Rightarrow> bool" where
  "bidirectional t \<longleftrightarrow>
     (\<forall>x \<in> set (map fst t). \<forall>y \<in> set (map fst t).
        (case (map_of t x, map_of t y) of
           (Some nx, Some ny) \<Rightarrow> (y \<in> set (children nx)) = (x \<in> set (prerequisites ny))
         | _ \<Rightarrow> True))"

definition children_distinct :: "node_table \<Rightarrow> bool" where
  "children_distinct t \<longleftrightarrow> (\<forall>e \<in> set t. distinct (children (snd e)))"

definition prereq_acyclic :: "node_table \<Rightarrow> bool" where
  "prereq_acyclic t \<longleftrightarrow> acyclic (prereq_rel t)"

definition root_free :: "node_table \<Rightarrow> string \<Rightarrow> bool" where
  "root_free t root_id \<longleftrightarrow>
     (case map_of t root_id of None \<Rightarrow> False | Some n \<Rightarrow> prerequisites n = [])"

lemma bidirectional_iff:
  "bidirectional t \<longleftrightarrow>
     (\<forall>x y nx ny. map_of t x = Some nx \<longrightarrow> map_of t y = Some ny \<longrightarrow>
        (y \<in> set (children nx)) = (x \<in> set (prerequisites ny)))"
proof
  assume b: "bidirectional t"
  show "\<forall>x y nx ny. map_of t x = Some nx \<longrightarrow> map_of t y = Some ny \<longrightarrow>
        (y \<in> set (children nx)) = (x \<in> set (prerequisites ny))"
  proof (intro allI impI)
    fix x y nx ny assume x: "map_of t x = Some nx" and y: "map_of t y = Some ny"
    then have "x \<in> set (map fst t)" "y \<in> set (map fst t)"
      by (auto dest!: map_of_SomeD intro: rev_image_eqI)
    with b x y show "(y \<in> set (children nx)) = (x \<in> set (prerequisites ny))"
      unfolding bidirectional_def by fastforce
  qed
next
  assume "\<forall>x y nx ny. map_of t x = Some nx \<longrightarrow> map_of t y = Some ny \<longrightarrow>
        (y \<in> set (children nx)) = (x \<in> set (prerequisites ny))"
  then show "bidirectional t"
    unfolding bidirectional_def by (auto split: option.splits)
qed

lemma children_distinct_lookup:
  "children_distinct t \<Longrightarrow> map_of t k = Some n \<Longrightarrow> distinct (children n)"
  unfolding children_distinct_def by (auto dest!: map_of_SomeD)

subsection \<open>Lookups after an update\<close>

lemma on_node_lookup:
  "map_of (on_node k f t) x = (if x = k then map_option f (map_of t k) else map_of t x)"
  by (cases "map_of t k") (simp_all add: on_node_def update_conv')

lemma on_node_keys [simp]: "map fst (on_node k f t) = map fst t"
proof (cases "map_of t k")
  case None
  then show ?thesis by (simp add: on_node_def)
next
  case (Some n)
  then have "k \<in> fst ` set t" by (auto dest!: map_of_SomeD intro: rev_image_eqI)
  then show ?thesis using Some by (simp add: on_node_def update_keys)
qed

lemma update_entries:
  "e \<in> set (AList.update k v al) \<Longrightarrow> e = (k, v) \<or> e \<in> set al"
  by (induction al) (auto split: if_splits)

lemma on_node_entries:
  "e \<in> set (on_node k f t) \<Longrightarrow> e \<in> set t \<or> (\<exists>n. (k, n) \<in> set t \<and> e = (k, f n))"
  by (cases "map_of t k") (auto simp add: on_node_def dest!: update_entries map_of_SomeD)

lemma drop_child_as_on_node:
  "drop_child fid parent_id t
     = on_node parent_id (\<lambda>n. if fid \<in> set (children n)
                              then n\<lparr>children := remove1 fid (children n)\<rparr> else n) t"
proof (cases "map_of t parent_id")
  case None
  then show ?thesis by (simp add: drop_child_def on_node_def)
next
  case (Some pn)
  have "AList.update parent_id pn t = t"
    using Some by (induction t) (auto split: if_splits)
  then show ?thesis using Some by (simp add: drop_child_def on_node_def)
qed

lemma on_node_children_distinct:
  assumes "children_distinct t" and "\<And>n. distinct (children n) \<Longrightarrow> distinct (children (f n))"
  shows "children_distinct (on_node k f t)"
  unfolding children_distinct_def
proof
  fix e assume "e \<in> set (on_node k f t)"
  then consider "e \<in> set t" | n where "(k, n) \<in> set t" "e = (k, f n)"
    by (auto dest: on_node_entries)
  then show "distinct (children (snd e))"
  proof cases
    case 1
    with assms(1) show ?thesis by (simp add: children_distinct_def)
  next
    case 2
    with assms(1) have "distinct (children n)" by (force simp add: children_distinct_def)
    with assms(2) 2 show ?thesis by simp
  qed
qed

subsection \<open>Adding an edge\<close>

lemma add_child_set [simp]: "set (children (add_child c n)) = insert c (set (children n))"
  by (auto simp add: add_child_def)

lemma add_child_prereqs [simp]: "prerequisites (add_child c n) = prerequisites n"
  by (simp add: add_child_def)

lemma add_prerequisite_set [simp]:
  "set (prerequisites (add_prerequisite p n)) = insert p (set (prerequisites n))"
  by (auto simp add: add_prerequisite_def)

lemma add_prerequisite_children [simp]: "children (add_prerequisite p n) = children n"
  by (simp add: add_prerequisite_def)

lemma add_child_distinct: "distinct (children n) \<Longrightarrow> distinct (children (add_child c n))"
  by (simp add: add_child_def)

lemma add_convergence_edge_keys [simp]: "map fst (add_convergence_edge e n t) = map fst t"
  by (simp add: add_convergence_edge_def)

lemma add_convergence_edge_lookup:
  "map_of (add_convergence_edge e n t) x =
     map_option (\<lambda>nd. (if x = e then add_child n else id) ((if x = n then add_prerequisite e else id) nd))
       (map_of t x)"
  by (cases "map_of t x") (auto simp add: add_convergence_edge_def on_node_lookup)

lemma add_convergence_edge_bidirectional:
  assumes "bidirectional t"
  shows "bidirectional (add_convergence_edge e n t)"
  unfolding bidirectional_iff
proof (intro allI impI)
  fix x y nx ny
  assume x: "map_of (add_convergence_edge e n t) x = Some nx"
    and y: "map_of (add_convergence_edge e n t) y = Some ny"
  from x obtain ox where ox: "map_of t x = Some ox"
    "nx = (if x = e then add_child n else id) ((if x = n then add_prerequisite e else id) ox)"
    by (auto simp add: add_convergence_edge_lookup)
  from y obtain oy where oy: "map_of t y = Some oy"
    "ny = (if y = e then add_child n else id) ((if y = n then add_prerequisite e else id) oy)"
    by (auto simp add: add_convergence_edge_lookup)
  from assms ox(1) oy(1) have old: "(y \<in> set (children ox)) = (x \<in> set (prerequisites oy))"
    by (simp add: bidirectional_iff)
  have "(y \<in> set (children nx)) = (y \<in> set (children ox) \<or> (x = e \<and> y = n))"
    by (auto simp add: ox(2))
  moreover have "(x \<in> set (prerequisites ny)) = (x \<in> set (prerequisites oy) \<or> (x = e \<and> y = n))"
    by (auto simp add: oy(2))
  ultimately show "(y \<in> set (children nx)) = (x \<in> set (prerequisites ny))"
    using old by simp
qed

lemma add_convergence_edge_children_distinct:
  "children_distinct t \<Longrightarrow> children_distinct (add_convergence_edge e n t)"
  unfolding add_convergence_edge_def
  by (intro on_node_children_distinct) (simp_all add: add_child_distinct)

lemma add_convergence_edge_prereq_rel:
  "prereq_rel (add_convergence_edge e n t) \<subseteq> insert (e, n) (prereq_rel t)"
  by (auto simp add: prereq_rel_def add_convergence_edge_lookup split: if_splits)

lemma link_nodes_keys [simp]: "map fst (link_nodes p c t) = map fst t"
  by (cases "map_of t p") (simp_all add: link_nodes_def)

lemma link_nodes_lookup:
  "map_of (link_nodes p c t) x =
     (case map_of t p of
        None \<Rightarrow> map_of t x
      | Some parent \<Rightarrow>
          map_option (\<lambda>nd. (if x = c then (\<lambda>m. (add_prerequisite p m)\<lparr>depth := depth parent + 1\<rparr>) else id)
                             ((if x = p then add_child c else id) nd))
            (map_of t x))"
  by (cases "map_of t p"; cases "map_of t x") (auto simp add: link_nodes_def on_node_lookup)

lemma link_nodes_bidirectional:
  assumes "bidirectional t"
  shows "bidirectional (link_nodes p c t)"
proof (cases "map_of t p")
  case None
  then show ?thesis using assms by (simp add: link_nodes_def)
next
  case (Some parent)
  show ?thesis
    unfolding bidirectional_iff
  proof (intro allI impI)
    fix x y nx ny
    assume x: "map_of (link_nodes p c t) x = Some nx"
      and y: "map_of (link_nodes p c t) y = Some ny"
    from x Some obtain ox where ox: "map_of t x = Some ox"
      "nx = (if x = c then (\<lambda>m. (add_prerequisite p m)\<lparr>depth := depth parent + 1\<rparr>) else id)
               ((if x = p then add_child c else id) ox)"
      by (auto simp add: link_nodes_lookup)
    from y Some obtain oy where oy: "map_of t y = Some oy"
      "ny = (if y = c then (\<lambda>m. (add_prerequisite p m)\<lparr>depth := depth parent + 1\<rparr>) else id)
               ((if y = p then add_child c else id) oy)"
      by (auto simp add: link_nodes_lookup)
    from assms ox(1) oy(1) have old: "(y \<in> set (children ox)) = (x \<in> set (prerequisites oy))"
      by (simp add: bidirectional_iff)
    have "(y \<in> set (children nx)) = (y \<in> set (children ox) \<or> (x = p \<and> y = c))"
      by (auto simp add: ox(2))
    moreover have "(x \<in> set (prerequisites ny)) = (x \<in> set (prerequisites oy) \<or> (x = p \<and> y = c))"
      by (auto simp add: oy(2))
    ultimately show "(y \<in> set (children nx)) = (x \<in> set (prerequisites ny))"
      using old by simp
  qed
qed

lemma link_nodes_children_distinct:
  "children_distinct t \<Longrightarrow> children_distinct (link_nodes p c t)"
  by (cases "map_of t p")
     (auto simp add: link_nodes_def add_child_distinct add_prerequisite_def
        intro!: on_node_children_distinct)

lemma link_nodes_prereq_rel:
  "prereq_rel (link_nodes p c t) \<subseteq> insert (p, c) (prereq_rel t)"
  by (cases "map_of t p")
     (auto simp add: prereq_rel_def link_nodes_lookup split: if_splits)

subsection \<open>The descendant check finds every descendant\<close>

lemma bfs_closed:
  assumes "bfs t (Some a) queue visited = (False, vs)"
    and "\<forall>x \<in> set visited. \<forall>y. (x, y) \<in> child_rel t \<longrightarrow> y \<in> set visited \<union> set queue"
    and "a \<notin> set visited"
  shows "set visited \<union> set queue \<subseteq> set vs
         \<and> (\<forall>x \<in> set vs. \<forall>y. (x, y) \<in> child_rel t \<longrightarrow> y \<in> set vs)
         \<and> a \<notin> set vs"
  using assms
proof (induction t "Some a" queue visited rule: bfs.induct)
  case (1 t visited)
  then show ?case by auto
next
  case (2 t fid queue visited)
  show ?case
  proof (cases "fid \<in> set visited")
    case True
    with "2.prems" have r: "bfs t (Some a) queue visited = (False, vs)" by simp
    have inv: "\<forall>x \<in> set visited. \<forall>y. (x, y) \<in> child_rel t \<longrightarrow> y \<in> set visited \<union> set queue"
      using "2.prems"(2) True by auto
    from "2.hyps"(1) [OF True r inv "2.prems"(3)] True show ?thesis by auto
  next
    case False
    note nv = False
    show ?thesis
    proof (cases "a = fid")
      case True
      with "2.prems"(1) nv show ?thesis by simp
    next
      case False
      define kids where "kids = (case map_of t fid of None \<Rightarrow> [] | Some n \<Rightarrow> children n)"
      from "2.prems"(1) nv False
      have r: "bfs t (Some a) (queue @ kids) (visited @ [fid]) = (False, vs)"
        by (simp add: kids_def)
      have k: "\<forall>y. (fid, y) \<in> child_rel t \<longrightarrow> y \<in> set kids"
        by (auto simp add: child_rel_def kids_def)
      have inv: "\<forall>x \<in> set (visited @ [fid]). \<forall>y. (x, y) \<in> child_rel t \<longrightarrow>
                   y \<in> set (visited @ [fid]) \<union> set (queue @ kids)"
        using "2.prems"(2) k by auto
      have na: "a \<notin> set (visited @ [fid])" using "2.prems"(3) False by simp
      from False have ne: "Some a \<noteq> Some fid" by simp
      from "2.hyps"(2) [OF nv ne r [unfolded kids_def] inv [unfolded kids_def] na]
      show ?thesis by (auto simp add: kids_def)
    qed
  qed
qed

lemma is_descendant_complete:
  assumes "(node_id, a) \<in> (child_rel t)\<^sup>*"
  shows "is_descendant a node_id t"
proof (rule ccontr)
  assume "\<not> is_descendant a node_id t"
  then obtain vs where r: "bfs t (Some a) [node_id] [] = (False, vs)"
    by (cases "bfs t (Some a) [node_id] []") (auto simp add: is_descendant_def)
  from bfs_closed [OF r] have n: "node_id \<in> set vs"
    and c: "\<forall>x \<in> set vs. \<forall>y. (x, y) \<in> child_rel t \<longrightarrow> y \<in> set vs"
    and a: "a \<notin> set vs" by auto
  from assms n have "a \<in> set vs"
  proof (induction rule: rtrancl_induct)
    case base
    then show ?case by simp
  next
    case (step y z)
    with c show ?case by blast
  qed
  with a show False by simp
qed

text \<open>With bidirectional links, a prerequisite path between table nodes is a child path.\<close>

lemma prereq_path_is_child_path:
  assumes "bidirectional t" and "(x, y) \<in> (prereq_rel t)\<^sup>*" and "x \<in> set (map fst t)"
  shows "(x, y) \<in> (child_rel t)\<^sup>* \<and> y \<in> set (map fst t)"
  using assms(2,3)
proof (induction rule: rtrancl_induct)
  case base
  then show ?case by simp
next
  case (step y z)
  then have xy: "(x, y) \<in> (child_rel t)\<^sup>*" and yk: "y \<in> set (map fst t)" by simp_all
  from yk obtain ny where ny: "map_of t y = Some ny"
    by (cases "map_of t y") (auto simp add: map_of_eq_None_iff)
  from step(2) obtain nz where nz: "map_of t z = Some nz" "y \<in> set (prerequisites nz)"
    by (auto simp add: prereq_rel_def)
  from assms(1) ny nz have "z \<in> set (children ny)" by (simp add: bidirectional_iff)
  with ny have "(y, z) \<in> child_rel t" by (auto simp add: child_rel_def)
  moreover from nz(1) have "z \<in> set (map fst t)"
    by (auto dest!: map_of_SomeD intro: rev_image_eqI)
  ultimately show ?case using xy by auto
qed

lemma not_descendant_no_path:
  assumes "bidirectional t" and "\<not> is_descendant c fid t" and "fid \<in> set (map fst t)"
  shows "(fid, c) \<notin> (prereq_rel t)\<^sup>*"
  using assms prereq_path_is_child_path is_descendant_complete by blast

subsection \<open>Edges into one node from non-descendants keep the graph acyclic\<close>

lemma acyclic_add_edge:
  assumes "acyclic r" and "(n, c) \<notin> r\<^sup>*"
  shows "acyclic (insert (c, n) r)"
  using assms by (simp add: acyclic_insert)

lemma no_path_after_edge:
  assumes "(n, c2) \<notin> r\<^sup>*"
  shows "(n, c2) \<notin> (insert (c1, n) r)\<^sup>*"
  using assms by (auto simp add: rtrancl_insert)

lemma fold_edges_acyclic:
  assumes "acyclic (prereq_rel t)" and "\<forall>c \<in> set cs. (fid, c) \<notin> (prereq_rel t)\<^sup>*"
  shows "acyclic (prereq_rel (fold (\<lambda>c. add_convergence_edge c fid) cs t))"
  using assms
proof (induction cs arbitrary: t)
  case Nil
  then show ?case by simp
next
  case (Cons c cs)
  let ?t1 = "add_convergence_edge c fid t"
  have sub: "prereq_rel ?t1 \<subseteq> insert (c, fid) (prereq_rel t)"
    by (rule add_convergence_edge_prereq_rel)
  from Cons.prems have "acyclic (insert (c, fid) (prereq_rel t))"
    by (simp add: acyclic_insert)
  then have a1: "acyclic (prereq_rel ?t1)" using sub by (rule acyclic_subset)
  have "\<forall>d \<in> set cs. (fid, d) \<notin> (prereq_rel ?t1)\<^sup>*"
  proof
    fix d assume "d \<in> set cs"
    with Cons.prems have "(fid, d) \<notin> (prereq_rel t)\<^sup>*" by simp
    then have "(fid, d) \<notin> (insert (c, fid) (prereq_rel t))\<^sup>*" by (rule no_path_after_edge)
    then show "(fid, d) \<notin> (prereq_rel ?t1)\<^sup>*" using rtrancl_mono [OF sub] by blast
  qed
  from Cons.IH [OF a1 this] show ?case by simp
qed

lemma fold_edges_bidirectional:
  "bidirectional t \<Longrightarrow> bidirectional (fold (\<lambda>c. add_convergence_edge (f c) fid) cs t)"
  by (induction cs arbitrary: t) (simp_all add: add_convergence_edge_bidirectional)

lemma fold_edges_children_distinct:
  "children_distinct t \<Longrightarrow> children_distinct (fold (\<lambda>c. add_convergence_edge (f c) fid) cs t)"
  by (induction cs arbitrary: t) (simp_all add: add_convergence_edge_children_distinct)

lemma fold_edges_keys [simp]:
  "map fst (fold (\<lambda>c. add_convergence_edge (f c) fid) cs t) = map fst t"
  by (induction cs arbitrary: t) simp_all

subsection \<open>The convergence passes keep the invariants\<close>

definition tree_inv :: "node_table \<Rightarrow> bool" where
  "tree_inv t \<longleftrightarrow> bidirectional t \<and> acyclic (prereq_rel t)"

lemma add_edges_inv:
  assumes "tree_inv t" and "fid \<in> set (map fst t)"
    and "\<forall>c \<in> set cs. \<not> is_descendant c fid t"
  shows "tree_inv (fold (\<lambda>c. add_convergence_edge c fid) cs t)"
proof -
  from assms(1) have b: "bidirectional t" by (simp add: tree_inv_def)
  have np: "\<forall>c \<in> set cs. (fid, c) \<notin> (prereq_rel t)\<^sup>*"
  proof
    fix c assume "c \<in> set cs"
    with assms(3) have "\<not> is_descendant c fid t" by simp
    from not_descendant_no_path [OF b this assms(2)]
    show "(fid, c) \<notin> (prereq_rel t)\<^sup>*" .
  qed
  have "bidirectional (fold (\<lambda>c. add_convergence_edge (id c) fid) cs t)"
    using assms(1) by (intro fold_edges_bidirectional) (simp add: tree_inv_def)
  moreover have "acyclic (prereq_rel (fold (\<lambda>c. add_convergence_edge c fid) cs t))"
    using assms(1) np by (intro fold_edges_acyclic) (simp_all add: tree_inv_def)
  ultimately show ?thesis by (simp add: tree_inv_def)
qed

lemma add_convergence_edge_other_prereqs:
  "x \<noteq> n \<Longrightarrow> map_option prerequisites (map_of (add_convergence_edge e n t) x)
                 = map_option prerequisites (map_of t x)"
  by (cases "map_of t x") (auto simp add: add_convergence_edge_lookup)

lemma add_edges_root_free:
  assumes "root_free t root_id" and "fid \<noteq> root_id"
  shows "root_free (fold (\<lambda>c. add_convergence_edge c fid) cs t) root_id"
  using assms(1)
proof (induction cs arbitrary: t)
  case Nil
  then show ?case by simp
next
  case (Cons c cs)
  have "map_option prerequisites (map_of (add_convergence_edge c fid t) root_id)
          = map_option prerequisites (map_of t root_id)"
    using assms(2) by (intro add_convergence_edge_other_prereqs) simp
  with Cons.prems have "root_free (add_convergence_edge c fid t) root_id"
    by (auto simp add: root_free_def split: option.splits)
  from Cons.IH [OF this] show ?case by simp
qed

lemma enforce_node_cases:
  "enforce_node reachable root_id fid t = t
   \<or> (fid \<noteq> root_id \<and> fid \<in> set (map fst t)
       \<and> (\<exists>cs. (\<forall>c \<in> set cs. \<not> is_descendant c fid t)
             \<and> enforce_node reachable root_id fid t
                 = fold (\<lambda>c. add_convergence_edge c fid) cs t))"
proof (cases "map_of t fid")
  case None
  then show ?thesis by (simp add: enforce_node_def)
next
  case (Some node)
  then have k: "fid \<in> set (map fst t)" by (auto dest!: map_of_SomeD intro: rev_image_eqI)
  define cands where "cands = sort_key (enforce_sort_key node) (enforce_candidates t reachable fid node)"
  define m where "m = nat ((if tier_to_depth (tier node) \<ge> 4 then 3 else 2)
                           - int (length (prerequisites node)))"
  have nd: "\<forall>c \<in> set (map fst (take m cands)). \<not> is_descendant c fid t"
  proof
    fix c assume "c \<in> set (map fst (take m cands))"
    then obtain e where "e \<in> set (take m cands)" "c = fst e" by auto
    then have "e \<in> set (enforce_candidates t reachable fid node)"
      by (auto simp add: cands_def dest: in_set_takeD)
    then show "\<not> is_descendant c fid t"
      using \<open>c = fst e\<close> by (auto simp add: enforce_candidates_def)
  qed
  have fm: "fold (\<lambda>c. add_convergence_edge (fst c) fid) (take m cands) t
                 = fold (\<lambda>c. add_convergence_edge c fid) (map fst (take m cands)) t"
    by (simp add: fold_map comp_def)
  show ?thesis
  proof (cases "enforce_node reachable root_id fid t = t")
    case True
    then show ?thesis by simp
  next
    case False
    with Some have ne: "fid \<noteq> root_id" by (auto simp add: enforce_node_def)
    from False Some have "enforce_node reachable root_id fid t
        = fold (\<lambda>c. add_convergence_edge (fst c) fid) (take m cands) t"
      unfolding enforce_node_def Let_def cands_def m_def
      by (simp split: if_splits)
    with fm have "enforce_node reachable root_id fid t
        = fold (\<lambda>c. add_convergence_edge c fid) (map fst (take m cands)) t" by simp
    with nd ne k show ?thesis by blast
  qed
qed

lemma enforce_node_inv:
  assumes "tree_inv t"
  shows "tree_inv (enforce_node reachable root_id fid t)"
proof -
  from enforce_node_cases [of reachable root_id fid t]
  consider "enforce_node reachable root_id fid t = t"
    | cs where "fid \<in> set (map fst t)" "\<forall>c \<in> set cs. \<not> is_descendant c fid t"
        "enforce_node reachable root_id fid t = fold (\<lambda>c. add_convergence_edge c fid) cs t"
    by blast
  then show ?thesis
  proof cases
    case 1
    with assms show ?thesis by simp
  next
    case 2
    from add_edges_inv [OF assms 2(1) 2(2)] 2(3) show ?thesis by simp
  qed
qed

lemma enforce_node_root_free:
  assumes "root_free t root_id"
  shows "root_free (enforce_node reachable root_id fid t) root_id"
proof -
  from enforce_node_cases [of reachable root_id fid t]
  consider "enforce_node reachable root_id fid t = t"
    | cs where "fid \<noteq> root_id"
        "enforce_node reachable root_id fid t = fold (\<lambda>c. add_convergence_edge c fid) cs t"
    by blast
  then show ?thesis
  proof cases
    case 1
    with assms show ?thesis by simp
  next
    case 2
    from add_edges_root_free [OF assms 2(1), of cs] 2(2) show ?thesis by simp
  qed
qed

lemma enforce_node_keys [simp]: "map fst (enforce_node reachable root_id fid t) = map fst t"
proof -
  have "map fst (fold (\<lambda>c. add_convergence_edge (id c) fid) cs t) = map fst t" for cs
    by (rule fold_edges_keys)
  then show ?thesis using enforce_node_cases [of reachable root_id fid t] by auto
qed

lemma enforce_fold_inv:
  "tree_inv t \<Longrightarrow> tree_inv (fold (enforce_node reachable root_id) ks t)"
  by (induction ks arbitrary: t) (simp_all add: enforce_node_inv)

lemma enforce_fold_root_free:
  "root_free t root_id \<Longrightarrow> root_free (fold (enforce_node reachable root_id) ks t) root_id"
  by (induction ks arbitrary: t) (simp_all add: enforce_node_root_free)

lemma enforce_fold_keys [simp]:
  "map fst (fold (enforce_node reachable root_id) ks t) = map fst t"
  by (induction ks arbitrary: t) simp_all

lemma enforce_high_tier_convergence_inv:
  "tree_inv t \<Longrightarrow> tree_inv (enforce_high_tier_convergence t root_id)"
  by (simp add: enforce_high_tier_convergence_def Let_def enforce_fold_inv)

lemma enforce_high_tier_convergence_root_free:
  "root_free t root_id \<Longrightarrow> root_free (enforce_high_tier_convergence t root_id) root_id"
  by (simp add: enforce_high_tier_convergence_def Let_def enforce_fold_root_free)

lemma add_edge_inv:
  assumes "tree_inv t" and "fid \<in> set (map fst t)" and "\<not> is_descendant c fid t"
  shows "tree_inv (add_convergence_edge c fid t)"
  using add_edges_inv [OF assms(1,2), of "[c]"] assms(3) by simp

lemma add_edge_root_free:
  assumes "root_free t root_id" and "fid \<noteq> root_id"
  shows "root_free (add_convergence_edge c fid t) root_id"
  using add_edges_root_free [OF assms, of "[c]"] by simp

lemma random_choice_member:
  "xs \<noteq> [] \<Longrightarrow> fst (random_choice xs g) \<in> set xs"
  by (simp add: random_choice_def)

lemma convergence_pick_inv:
  "tree_inv t \<Longrightarrow> tree_inv (fst (convergence_pick available reachable node_id ds t g))"
proof (induction ds arbitrary: t g)
  case Nil
  then show ?case by simp
next
  case (Cons d ds)
  show ?case
  proof (cases "map_of t node_id")
    case None
    then show ?thesis using Cons.prems by simp
  next
    case (Some node)
    then have k: "node_id \<in> set (map fst t)"
      by (auto dest!: map_of_SomeD intro: rev_image_eqI)
    define different where "different = convergence_different t reachable node_id node
            (case map_of available d of None \<Rightarrow> [] | Some ps \<Rightarrow> ps)"
    show ?thesis
    proof (cases "different = []")
      case True
      then show ?thesis using Some Cons by (simp add: different_def)
    next
      case False
      then have "fst (random_choice different g) \<in> set different"
        by (rule random_choice_member)
      then have "\<not> is_descendant (fst (random_choice different g)) node_id t"
        by (auto simp add: different_def convergence_different_def)
      from add_edge_inv [OF Cons.prems k this] show ?thesis
        using Some False by (simp add: different_def case_prod_beta Let_def)
    qed
  qed
qed

lemma convergence_pick_root_free:
  "root_free t root_id \<Longrightarrow> node_id \<noteq> root_id \<Longrightarrow>
   root_free (fst (convergence_pick available reachable node_id ds t g)) root_id"
proof (induction ds arbitrary: t g)
  case Nil
  then show ?case by simp
next
  case (Cons d ds)
  then show ?case
    by (cases "map_of t node_id")
       (auto simp add: Let_def add_edge_root_free case_prod_beta)
qed

lemma convergence_pick_keys [simp]:
  "map fst (fst (convergence_pick available reachable node_id ds t g)) = map fst t"
proof (induction ds arbitrary: t g)
  case Nil
  then show ?case by simp
next
  case (Cons d ds)
  then show ?case
    by (cases "map_of t node_id") (auto simp add: Let_def case_prod_beta)
qed

lemma convergence_rounds_inv:
  "tree_inv t \<Longrightarrow>
   tree_inv (fst (convergence_rounds k max_prereqs available reachable node_id t g))"
proof (induction k arbitrary: t g)
  case 0
  then show ?case by simp
next
  case (Suc k)
  show ?case
  proof (cases "map_of t node_id")
    case None
    then show ?thesis using Suc.prems by simp
  next
    case (Some node)
    obtain t' g' where p: "convergence_pick available reachable node_id
            (rev [0..depth node - 1]) t g = (t', g')" by (cases "convergence_pick available reachable node_id
            (rev [0..depth node - 1]) t g")
    have "tree_inv t'" using convergence_pick_inv [OF Suc.prems, of available reachable node_id
            "rev [0..depth node - 1]" g] p by simp
    from Suc.IH [OF this] show ?thesis using Some p Suc.prems by simp
  qed
qed

lemma convergence_rounds_root_free:
  "root_free t root_id \<Longrightarrow> node_id \<noteq> root_id \<Longrightarrow>
   root_free (fst (convergence_rounds k max_prereqs available reachable node_id t g)) root_id"
proof (induction k arbitrary: t g)
  case 0
  then show ?case by simp
next
  case (Suc k)
  show ?case
  proof (cases "map_of t node_id")
    case None
    then show ?thesis using Suc.prems by simp
  next
    case (Some node)
    obtain t' g' where p: "convergence_pick available reachable node_id
            (rev [0..depth node - 1]) t g = (t', g')" by (cases "convergence_pick available reachable node_id
            (rev [0..depth node - 1]) t g")
    have "root_free t' root_id" using convergence_pick_root_free [OF Suc.prems, of available reachable
            "rev [0..depth node - 1]" g] p by simp
    from Suc.IH [OF this Suc.prems(2)] show ?thesis using Some p Suc.prems by simp
  qed
qed

lemma maybe_add_convergence_cases:
  "fst (maybe_add_convergence chance node_id available t root_id g) = t
   \<or> (\<exists>k mp reach g1. fst (maybe_add_convergence chance node_id available t root_id g)
          = fst (convergence_rounds k mp available reach node_id t g1))"
  unfolding maybe_add_convergence_def Let_def
  by (cases "map_of t node_id")
     (auto simp add: case_prod_beta simp del: convergence_rounds.simps)

lemma maybe_add_convergence_inv:
  assumes "tree_inv t"
  shows "tree_inv (fst (maybe_add_convergence chance node_id available t root_id g))"
  using maybe_add_convergence_cases [of chance node_id available t root_id g]
    convergence_rounds_inv [OF assms] assms
  by auto

lemma maybe_add_convergence_root_free:
  assumes "root_free t root_id" and "node_id \<noteq> root_id"
  shows "root_free (fst (maybe_add_convergence chance node_id available t root_id g)) root_id"
  using maybe_add_convergence_cases [of chance node_id available t root_id g]
    convergence_rounds_root_free [OF assms] assms(1)
  by auto

subsection \<open>The repair keeps the links bidirectional\<close>

lemma drop_child_simple:
  "drop_child fid parent_id t
     = on_node parent_id (\<lambda>n. n\<lparr>children := remove1 fid (children n)\<rparr>) t"
proof -
  have e: "(\<lambda>n. if fid \<in> set (children n) then n\<lparr>children := remove1 fid (children n)\<rparr> else n)
        = (\<lambda>n. n\<lparr>children := remove1 fid (children n)\<rparr>)"
    by (rule ext) (simp add: remove1_idem)
  show ?thesis unfolding drop_child_as_on_node e ..
qed

lemma drop_child_keys [simp]: "map fst (drop_child fid p t) = map fst t"
  by (simp add: drop_child_simple)

lemma drop_child_children_distinct:
  "children_distinct t \<Longrightarrow> children_distinct (drop_child fid p t)"
  unfolding drop_child_simple by (rule on_node_children_distinct) simp_all

lemma fold_drop_keys [simp]: "map fst (fold (drop_child fid) bs t) = map fst t"
  by (induction bs arbitrary: t) simp_all

lemma fold_drop_children_distinct:
  "children_distinct t \<Longrightarrow> children_distinct (fold (drop_child fid) bs t)"
  by (induction bs arbitrary: t) (simp_all add: drop_child_children_distinct)

text \<open>What a node looks like after \<^verbatim>\<open>fid\<close> has been taken out of the listed parents.\<close>

definition dropped :: "string \<Rightarrow> string list \<Rightarrow> string \<Rightarrow> TreeNode \<Rightarrow> TreeNode \<Rightarrow> bool" where
  "dropped fid bs x n n' \<longleftrightarrow>
     prerequisites n' = prerequisites n \<and> depth n' = depth n
     \<and> set (children n') = (if x \<in> set bs then set (children n) - {fid} else set (children n))"

lemma drop_child_rel:
  assumes "children_distinct t"
  shows "rel_option (dropped fid [b] x) (map_of t x) (map_of (drop_child fid b t) x)"
proof (cases "map_of t x")
  case None
  then show ?thesis by (auto simp add: drop_child_simple on_node_lookup)
next
  case (Some n)
  with assms have "distinct (children n)" by (rule children_distinct_lookup)
  then show ?thesis using Some
    by (auto simp add: drop_child_simple on_node_lookup dropped_def set_remove1_eq)
qed

lemma fold_drop_rel:
  assumes "children_distinct t"
  shows "rel_option (dropped fid bs x) (map_of t x) (map_of (fold (drop_child fid) bs t) x)"
  using assms
proof (induction bs arbitrary: t)
  case Nil
  then show ?case by (cases "map_of t x") (simp_all add: dropped_def)
next
  case (Cons b bs)
  have d1: "children_distinct (drop_child fid b t)"
    using Cons.prems by (rule drop_child_children_distinct)
  have s: "rel_option (dropped fid [b] x) (map_of t x) (map_of (drop_child fid b t) x)"
    using Cons.prems by (rule drop_child_rel)
  have r: "rel_option (dropped fid bs x) (map_of (drop_child fid b t) x)
             (map_of (fold (drop_child fid) bs (drop_child fid b t)) x)"
    by (rule Cons.IH [OF d1])
  show ?case
  proof (cases "map_of t x")
    case None
    with s have "map_of (drop_child fid b t) x = None" by (cases "map_of (drop_child fid b t) x") simp_all
    with r None show ?thesis
      by (cases "map_of (fold (drop_child fid) bs (drop_child fid b t)) x") simp_all
  next
    case (Some n)
    with s obtain n1 where n1: "map_of (drop_child fid b t) x = Some n1" "dropped fid [b] x n n1"
      by (cases "map_of (drop_child fid b t) x") simp_all
    with r obtain n2 where n2: "map_of (fold (drop_child fid) bs (drop_child fid b t)) x = Some n2"
      "dropped fid bs x n1 n2"
      by (cases "map_of (fold (drop_child fid) bs (drop_child fid b t)) x") simp_all
    from n1(2) n2(2) have "dropped fid (b # bs) x n n2"
      by (auto simp add: dropped_def split: if_splits)
    with Some n2(1) show ?thesis by simp
  qed
qed

definition rewired ::
  "string \<Rightarrow> string set \<Rightarrow> string set \<Rightarrow> string \<Rightarrow> string \<Rightarrow> TreeNode \<Rightarrow> TreeNode \<Rightarrow> bool" where
  "rewired fid new_prereqs dropped_from best x n n' \<longleftrightarrow>
     set (children n') = (if x \<in> dropped_from then set (children n) - {fid} else set (children n))
                           \<union> (if x = best then {fid} else {})
     \<and> set (prerequisites n') = (if x = fid then new_prereqs else set (prerequisites n))
     \<and> (x \<noteq> fid \<longrightarrow> prerequisites n' = prerequisites n)"

lemma relink_steps:
  assumes r1: "rel_option D (map_of t x) (map_of t1 x)"
    and t2: "t2 = on_node fid (\<lambda>n. n\<lparr>prerequisites := new\<rparr>) t1"
    and t3: "t3 = on_node best
                 (\<lambda>n. if fid \<in> set (children n) then n else n\<lparr>children := children n @ [fid]\<rparr>) t2"
    and t4: "t4 = t3 \<or> (\<exists>dp. t4 = on_node fid (\<lambda>n. n\<lparr>depth := dp\<rparr>) t3)"
  shows "rel_option
           (\<lambda>n n'. \<exists>n1. D n n1
              \<and> set (children n') = set (children n1) \<union> (if x = best then {fid} else {})
              \<and> length (children n') \<le> length (children n1) + (if x = best then 1 else 0)
              \<and> prerequisites n' = (if x = fid then new else prerequisites n1))
           (map_of t x) (map_of t4 x)"
proof -
  have l2: "map_of t2 x = (if x = fid then map_option (\<lambda>n. n\<lparr>prerequisites := new\<rparr>) (map_of t1 x)
                           else map_of t1 x)"
    unfolding t2 by (simp add: on_node_lookup)
  have l3: "map_of t3 x = (if x = best
                           then map_option (\<lambda>n. if fid \<in> set (children n) then n
                                                 else n\<lparr>children := children n @ [fid]\<rparr>) (map_of t2 x)
                           else map_of t2 x)"
    unfolding t3 by (simp add: on_node_lookup)
  have l4: "map_of t4 x = map_of t3 x
            \<or> (\<exists>dp. map_of t4 x = map_option (\<lambda>n. n\<lparr>depth := dp\<rparr>) (map_of t3 x))"
  proof -
    from t4 consider "t4 = t3" | dp where "t4 = on_node fid (\<lambda>n. n\<lparr>depth := dp\<rparr>) t3" by blast
    then show ?thesis
    proof cases
      case 1
      then show ?thesis by simp
    next
      case 2
      show ?thesis
      proof (cases "x = fid")
        case True
        with 2 show ?thesis by (auto simp add: on_node_lookup)
      next
        case False
        with 2 show ?thesis by (simp add: on_node_lookup)
      qed
    qed
  qed
  show ?thesis
  proof (cases "map_of t x")
    case None
    with r1 have "map_of t1 x = None" by (cases "map_of t1 x") simp_all
    with l2 have "map_of t2 x = None" by (simp split: if_splits)
    with l3 have "map_of t3 x = None" by (simp split: if_splits)
    with l4 have "map_of t4 x = None" by auto
    with None show ?thesis by simp
  next
    case (Some n)
    with r1 obtain n1 where n1: "map_of t1 x = Some n1" "D n n1"
      by (cases "map_of t1 x") simp_all
    define n2 where "n2 = (if x = fid then n1\<lparr>prerequisites := new\<rparr> else n1)"
    have m2: "map_of t2 x = Some n2" using l2 n1(1) by (cases "x = fid") (simp_all add: n2_def)
    define n3 where "n3 = (if x = best then (if fid \<in> set (children n2) then n2
                                 else n2\<lparr>children := children n2 @ [fid]\<rparr>) else n2)"
    have m3: "map_of t3 x = Some n3" using l3 m2 by (cases "x = best") (simp_all add: n3_def)
    from l4 m3 obtain n4 where m4: "map_of t4 x = Some n4"
      and f4: "children n4 = children n3" "prerequisites n4 = prerequisites n3"
      by auto
    have c3: "set (children n3) = set (children n1) \<union> (if x = best then {fid} else {})"
      by (auto simp add: n3_def n2_def)
    have p3: "prerequisites n3 = (if x = fid then new else prerequisites n1)"
      by (auto simp add: n3_def n2_def)
    have g3: "length (children n3) \<le> length (children n1) + (if x = best then 1 else 0)"
      by (auto simp add: n3_def n2_def)
    from n1(2) c3 p3 g3 f4 Some m4 show ?thesis by auto
  qed
qed

lemma relink_rel:
  assumes d: "children_distinct t"
    and t1: "t1 = fold (drop_child fid) bs t"
    and t2: "t2 = on_node fid (\<lambda>n. n\<lparr>prerequisites := new\<rparr>) t1"
    and t3: "t3 = on_node best
                 (\<lambda>n. if fid \<in> set (children n) then n else n\<lparr>children := children n @ [fid]\<rparr>) t2"
    and t4: "t4 = t3 \<or> (\<exists>dp. t4 = on_node fid (\<lambda>n. n\<lparr>depth := dp\<rparr>) t3)"
  shows "rel_option (rewired fid (set new) (set bs) best x) (map_of t x) (map_of t4 x)"
proof -
  have r1: "rel_option (dropped fid bs x) (map_of t x) (map_of t1 x)"
    unfolding t1 using d by (rule fold_drop_rel)
  have "rel_option
           (\<lambda>n n'. \<exists>n1. dropped fid bs x n n1
              \<and> set (children n') = set (children n1) \<union> (if x = best then {fid} else {})
              \<and> length (children n') \<le> length (children n1) + (if x = best then 1 else 0)
              \<and> prerequisites n' = (if x = fid then new else prerequisites n1))
           (map_of t x) (map_of t4 x)"
    by (rule relink_steps [OF r1 t2 t3 t4])
  then show ?thesis
    by (rule option.rel_mono_strong) (auto simp add: rewired_def dropped_def)
qed

lemma fold_drop_prereqs:
  "rel_option (\<lambda>n n1. prerequisites n1 = prerequisites n) (map_of t x)
     (map_of (fold (drop_child fid) bs t) x)"
proof (induction bs arbitrary: t)
  case Nil
  then show ?case by (cases "map_of t x") simp_all
next
  case (Cons b bs)
  have s: "rel_option (\<lambda>n n1. prerequisites n1 = prerequisites n) (map_of t x)
             (map_of (drop_child fid b t) x)"
    by (cases "map_of t x") (auto simp add: drop_child_simple on_node_lookup)
  from Cons [of "drop_child fid b t"] s show ?case
    by (cases "map_of t x"; cases "map_of (drop_child fid b t) x";
        cases "map_of (fold (drop_child fid) bs (drop_child fid b t)) x") simp_all
qed

text \<open>The prerequisites after a rewiring: only those of \<^verbatim>\<open>fid\<close> change.\<close>

definition reparented :: "string \<Rightarrow> string list \<Rightarrow> string \<Rightarrow> TreeNode \<Rightarrow> TreeNode \<Rightarrow> bool" where
  "reparented fid new x n n' \<longleftrightarrow> prerequisites n' = (if x = fid then new else prerequisites n)"

lemma relink_prereqs:
  assumes t1: "t1 = fold (drop_child fid) bs t"
    and t2: "t2 = on_node fid (\<lambda>n. n\<lparr>prerequisites := new\<rparr>) t1"
    and t3: "t3 = on_node best
                 (\<lambda>n. if fid \<in> set (children n) then n else n\<lparr>children := children n @ [fid]\<rparr>) t2"
    and t4: "t4 = t3 \<or> (\<exists>dp. t4 = on_node fid (\<lambda>n. n\<lparr>depth := dp\<rparr>) t3)"
  shows "rel_option (reparented fid new x) (map_of t x) (map_of t4 x)"
proof -
  have r1: "rel_option (\<lambda>n n1. prerequisites n1 = prerequisites n) (map_of t x) (map_of t1 x)"
    unfolding t1 by (rule fold_drop_prereqs)
  from relink_steps [where D = "\<lambda>n n1. prerequisites n1 = prerequisites n", OF r1 t2 t3 t4]
  show ?thesis
    by (rule option.rel_mono_strong) (auto simp add: reparented_def)
qed

lemma rewire_rel:
  assumes "children_distinct t"
  shows "rel_option (rewired fid (set (filter (\<lambda>p. p \<notin> set blocking) prereqs) \<union> {best})
                       (set blocking) best x)
           (map_of t x) (map_of (rewire fid prereqs blocking best t) x)"
proof -
  define kept where "kept = filter (\<lambda>p. p \<notin> set blocking) prereqs"
  define new where "new = (if best \<in> set kept then kept else kept @ [best])"
  define t1 where "t1 = fold (drop_child fid) blocking t"
  define t2 where "t2 = on_node fid (\<lambda>n. n\<lparr>prerequisites := new\<rparr>) t1"
  define t3 where "t3 = on_node best
                 (\<lambda>n. if fid \<in> set (children n) then n else n\<lparr>children := children n @ [fid]\<rparr>) t2"
  have r: "rewire fid prereqs blocking best t
           = (case map_of t3 best of None \<Rightarrow> t3
              | Some parent_node \<Rightarrow> on_node fid (\<lambda>n. n\<lparr>depth := depth parent_node + 1\<rparr>) t3)"
    unfolding rewire_def Let_def t3_def t2_def t1_def new_def kept_def by (rule refl)
  then have t4: "rewire fid prereqs blocking best t = t3
      \<or> (\<exists>dp. rewire fid prereqs blocking best t = on_node fid (\<lambda>n. n\<lparr>depth := dp\<rparr>) t3)"
    by (cases "map_of t3 best") auto
  have s: "set new = set kept \<union> {best}" by (auto simp add: new_def)
  from relink_rel [OF assms t1_def t2_def t3_def t4, of x]
  show ?thesis by (simp add: s kept_def)
qed

lemma attach_to_root_rel:
  assumes "children_distinct t" and "map_of t fid = Some node" and "fid \<noteq> root_id"
  shows "rel_option (rewired fid {root_id} (set (prerequisites node)) root_id x)
           (map_of t x) (map_of (attach_to_root root_id fid t) x)"
proof -
  define t1 where "t1 = fold (drop_child fid) (prerequisites node) t"
  define t2 where "t2 = on_node fid (\<lambda>n. n\<lparr>prerequisites := [root_id]\<rparr>) t1"
  define t3 where "t3 = on_node root_id
                 (\<lambda>n. if fid \<in> set (children n) then n else n\<lparr>children := children n @ [fid]\<rparr>) t2"
  have "attach_to_root root_id fid t = on_node fid (\<lambda>n. n\<lparr>depth := 1\<rparr>) t3"
    using assms(2,3) by (simp add: attach_to_root_def Let_def t3_def t2_def t1_def)
  then have t4: "attach_to_root root_id fid t = t3
      \<or> (\<exists>dp. attach_to_root root_id fid t = on_node fid (\<lambda>n. n\<lparr>depth := dp\<rparr>) t3)"
    by blast
  from relink_rel [OF assms(1) t1_def t2_def t3_def t4, of x]
  show ?thesis by simp
qed

lemma rewire_reparented:
  assumes kept: "kept = filter (\<lambda>p. p \<notin> set blocking) prereqs"
    and new: "new = (if best \<in> set kept then kept else kept @ [best])"
  shows "rel_option (reparented fid new x)
     (map_of t x) (map_of (rewire fid prereqs blocking best t) x)"
proof -
  define t1 where "t1 = fold (drop_child fid) blocking t"
  define t2 where "t2 = on_node fid (\<lambda>n. n\<lparr>prerequisites := new\<rparr>) t1"
  define t3 where "t3 = on_node best
                 (\<lambda>n. if fid \<in> set (children n) then n else n\<lparr>children := children n @ [fid]\<rparr>) t2"
  have r: "rewire fid prereqs blocking best t
           = (case map_of t3 best of None \<Rightarrow> t3
              | Some parent_node \<Rightarrow> on_node fid (\<lambda>n. n\<lparr>depth := depth parent_node + 1\<rparr>) t3)"
    unfolding rewire_def Let_def t3_def t2_def t1_def new kept by (rule refl)
  then have t4: "rewire fid prereqs blocking best t = t3
      \<or> (\<exists>dp. rewire fid prereqs blocking best t = on_node fid (\<lambda>n. n\<lparr>depth := dp\<rparr>) t3)"
    by (cases "map_of t3 best") auto
  from relink_prereqs [OF t1_def t2_def t3_def t4, of x]
  show ?thesis .
qed

lemma attach_to_root_reparented:
  assumes "map_of t fid = Some node" and "fid \<noteq> root_id"
  shows "rel_option (reparented fid [root_id] x)
           (map_of t x) (map_of (attach_to_root root_id fid t) x)"
proof -
  define t1 where "t1 = fold (drop_child fid) (prerequisites node) t"
  define t2 where "t2 = on_node fid (\<lambda>n. n\<lparr>prerequisites := [root_id]\<rparr>) t1"
  define t3 where "t3 = on_node root_id
                 (\<lambda>n. if fid \<in> set (children n) then n else n\<lparr>children := children n @ [fid]\<rparr>) t2"
  have "attach_to_root root_id fid t = on_node fid (\<lambda>n. n\<lparr>depth := 1\<rparr>) t3"
    using assms by (simp add: attach_to_root_def Let_def t3_def t2_def t1_def)
  then have t4: "attach_to_root root_id fid t = t3
      \<or> (\<exists>dp. attach_to_root root_id fid t = on_node fid (\<lambda>n. n\<lparr>depth := dp\<rparr>) t3)"
    by blast
  from relink_prereqs [OF t1_def t2_def t3_def t4, of x]
  show ?thesis by simp
qed

lemma attach_to_root_keys [simp]:
  "map fst (attach_to_root root_id fid t) = map fst t"
  by (simp add: attach_to_root_def Let_def split: option.splits)

lemma rewired_bidirectional:
  assumes b: "bidirectional t"
    and node: "map_of t fid = Some node"
    and r: "\<And>x. rel_option (rewired fid new dropped_from best x) (map_of t x) (map_of t' x)"
    and new: "new = (set (prerequisites node) - dropped_from) \<union> {best}"
  shows "bidirectional t'"
  unfolding bidirectional_iff
proof (intro allI impI)
  fix x y nx ny assume x: "map_of t' x = Some nx" and y: "map_of t' y = Some ny"
  from r [of x] x obtain ox where ox: "map_of t x = Some ox" "rewired fid new dropped_from best x ox nx"
    by (cases "map_of t x") simp_all
  from r [of y] y obtain oy where oy: "map_of t y = Some oy" "rewired fid new dropped_from best y oy ny"
    by (cases "map_of t y") simp_all
  from b ox(1) oy(1) have old: "(y \<in> set (children ox)) = (x \<in> set (prerequisites oy))"
    by (simp add: bidirectional_iff)
  show "(y \<in> set (children nx)) = (x \<in> set (prerequisites ny))"
  proof (cases "y = fid")
    case True
    with oy(1) node have "oy = node" by simp
    with old True have o: "(fid \<in> set (children ox)) = (x \<in> set (prerequisites node))" by simp
    from ox(2) have "(fid \<in> set (children nx))
        = ((fid \<in> set (children ox) \<and> x \<notin> dropped_from) \<or> x = best)"
      by (auto simp add: rewired_def)
    moreover from oy(2) True have "(x \<in> set (prerequisites ny)) = (x \<in> new)"
      by (simp add: rewired_def)
    ultimately show ?thesis using o True new by auto
  next
    case False
    from ox(2) False have "(y \<in> set (children nx)) = (y \<in> set (children ox))"
      by (auto simp add: rewired_def)
    moreover from oy(2) False have "prerequisites ny = prerequisites oy"
      by (simp add: rewired_def)
    ultimately show ?thesis using old by simp
  qed
qed

lemma rewire_bidirectional:
  assumes "bidirectional t" and "children_distinct t"
    and "map_of t fid = Some node" and "prereqs = prerequisites node"
  shows "bidirectional (rewire fid prereqs blocking best t)"
proof (rule rewired_bidirectional [OF assms(1) assms(3)])
  fix x
  show "rel_option (rewired fid (set (filter (\<lambda>p. p \<notin> set blocking) prereqs) \<union> {best})
                       (set blocking) best x)
           (map_of t x) (map_of (rewire fid prereqs blocking best t) x)"
    using assms(2) by (rule rewire_rel)
next
  show "set (filter (\<lambda>p. p \<notin> set blocking) prereqs) \<union> {best}
          = (set (prerequisites node) - set blocking) \<union> {best}"
    using assms(4) by auto
qed

lemma attach_to_root_bidirectional:
  assumes "bidirectional t" and "children_distinct t"
  shows "bidirectional (attach_to_root root_id fid t)"
proof (cases "fid = root_id \<or> map_of t fid = None")
  case True
  then show ?thesis using assms(1) by (auto simp add: attach_to_root_def)
next
  case False
  then obtain node where node: "map_of t fid = Some node" and ne: "fid \<noteq> root_id" by auto
  show ?thesis
  proof (rule rewired_bidirectional [OF assms(1) node])
    fix x
    show "rel_option (rewired fid {root_id} (set (prerequisites node)) root_id x)
           (map_of t x) (map_of (attach_to_root root_id fid t) x)"
      using assms(2) node ne by (rule attach_to_root_rel)
  next
    show "{root_id} = (set (prerequisites node) - set (prerequisites node)) \<union> {root_id}" by simp
  qed
qed

lemma rewire_children_distinct:
  assumes "children_distinct t"
  shows "children_distinct (rewire fid prereqs blocking best t)"
proof -
  have "children_distinct (fold (drop_child fid) blocking t)"
    using assms by (rule fold_drop_children_distinct)
  then show ?thesis
    unfolding rewire_def Let_def
    by (auto split: option.splits intro!: on_node_children_distinct)
qed

lemma attach_to_root_children_distinct:
  assumes "children_distinct t"
  shows "children_distinct (attach_to_root root_id fid t)"
proof -
  have "children_distinct (fold (drop_child fid) bs t)" for bs
    using assms by (rule fold_drop_children_distinct)
  with assms show ?thesis
    unfolding attach_to_root_def Let_def
    by (auto split: option.splits intro!: on_node_children_distinct)
qed

subsection \<open>What the unlock simulation returns\<close>

text \<open>Every id the simulation adds has all its prerequisites unlocked.\<close>

definition unlock_closed :: "node_table \<Rightarrow> string set \<Rightarrow> string set \<Rightarrow> bool" where
  "unlock_closed t base U \<longleftrightarrow>
     (\<forall>x \<in> U. x \<in> base \<or> (\<exists>n. (x, n) \<in> set t \<and> set (prerequisites n) \<subseteq> U))"

lemma unlock_closed_mono:
  "unlock_closed t base U \<Longrightarrow> U \<subseteq> V \<Longrightarrow> unlock_closed t (base \<union> U) V \<Longrightarrow> unlock_closed t base V"
  unfolding unlock_closed_def by blast

lemma unlock_sweep_grows:
  "unlock_sweep es u ch = (u', ch') \<Longrightarrow> set u \<subseteq> set u'"
proof (induction es arbitrary: u ch)
  case Nil
  then show ?case by simp
next
  case (Cons e es)
  obtain fid node where e: "e = (fid, node)" by (cases e)
  from Cons.prems show ?case
    unfolding e by (auto split: if_splits dest!: Cons.IH)
qed

lemma unlock_sweep_sound:
  "unlock_sweep es u ch = (u', ch') \<Longrightarrow>
   \<forall>x \<in> set u'. x \<in> set u \<or> (\<exists>n. (x, n) \<in> set es \<and> set (prerequisites n) \<subseteq> set u')"
proof (induction es arbitrary: u ch)
  case Nil
  then show ?case by simp
next
  case (Cons e es)
  obtain fid node where e: "e = (fid, node)" by (cases e)
  consider (skip) "unlock_sweep es u ch = (u', ch')"
    | (add) "\<forall>p \<in> set (prerequisites node). p \<in> set u" "unlock_sweep es (u @ [fid]) True = (u', ch')"
    using Cons.prems unfolding e by (auto split: if_splits)
  then show ?case
  proof cases
    case skip
    from Cons.IH [OF skip] show ?thesis by auto
  next
    case add
    from unlock_sweep_grows [OF add(2)] have g: "set (u @ [fid]) \<subseteq> set u'" .
    with add(1) have "set (prerequisites node) \<subseteq> set u'" by auto
    with Cons.IH [OF add(2)] show ?thesis unfolding e by auto
  qed
qed

lemma unlock_sweep_keys:
  "unlock_sweep es u ch = (u', ch') \<Longrightarrow> set u' \<subseteq> set u \<union> fst ` set es"
proof (induction es arbitrary: u ch)
  case Nil
  then show ?case by simp
next
  case (Cons e es)
  obtain fid node where e: "e = (fid, node)" by (cases e)
  from Cons.prems show ?case
    unfolding e by (auto split: if_splits dest!: Cons.IH)
qed

lemma unlock_loop_props:
  "set u \<subseteq> set (unlock_loop k t u)
   \<and> set (unlock_loop k t u) \<subseteq> set u \<union> fst ` set t
   \<and> unlock_closed t (set u) (set (unlock_loop k t u))"
proof (induction k arbitrary: u)
  case 0
  then show ?case by (simp add: unlock_closed_def)
next
  case (Suc k)
  obtain u' ch where s: "unlock_sweep t u False = (u', ch)" by (cases "unlock_sweep t u False")
  have g: "set u \<subseteq> set u'" by (rule unlock_sweep_grows [OF s])
  have k: "set u' \<subseteq> set u \<union> fst ` set t" by (rule unlock_sweep_keys [OF s])
  have c: "unlock_closed t (set u) (set u')"
    using unlock_sweep_sound [OF s] by (auto simp add: unlock_closed_def)
  show ?case
  proof (cases ch)
    case False
    with s g k c show ?thesis by simp
  next
    case True
    from Suc [of u'] have g2: "set u' \<subseteq> set (unlock_loop k t u')"
      and k2: "set (unlock_loop k t u') \<subseteq> set u' \<union> fst ` set t"
      and c2: "unlock_closed t (set u') (set (unlock_loop k t u'))" by simp_all
    have "unlock_closed t (set u) (set (unlock_loop k t u'))"
      unfolding unlock_closed_def
    proof
      fix x assume x: "x \<in> set (unlock_loop k t u')"
      with c2 consider "x \<in> set u'"
        | n where "(x, n) \<in> set t" "set (prerequisites n) \<subseteq> set (unlock_loop k t u')"
        unfolding unlock_closed_def by blast
      then show "x \<in> set u \<or> (\<exists>n. (x, n) \<in> set t \<and> set (prerequisites n) \<subseteq> set (unlock_loop k t u'))"
      proof cases
        case 1
        with c consider "x \<in> set u" | n where "(x, n) \<in> set t" "set (prerequisites n) \<subseteq> set u'"
          unfolding unlock_closed_def by blast
        then show ?thesis
        proof cases
          case 1
          then show ?thesis by simp
        next
          case 2
          with g2 have "set (prerequisites n) \<subseteq> set (unlock_loop k t u')" by blast
          with 2(1) show ?thesis by blast
        qed
      next
        case 2
        then show ?thesis by blast
      qed
    qed
    with s True g g2 k k2 show ?thesis by auto
  qed
qed

lemma simulate_unlocks_root: "root_id \<in> set (simulate_unlocks t root_id)"
  using unlock_loop_props [of "[root_id]" "length t + 10" t] by (simp add: simulate_unlocks_def)

lemma simulate_unlocks_keys:
  "set (simulate_unlocks t root_id) \<subseteq> insert root_id (fst ` set t)"
  using unlock_loop_props [of "[root_id]" "length t + 10" t] by (simp add: simulate_unlocks_def)

lemma simulate_unlocks_closed:
  assumes "distinct (map fst t)" and "x \<in> set (simulate_unlocks t root_id)" and "x \<noteq> root_id"
  shows "\<exists>n. map_of t x = Some n \<and> set (prerequisites n) \<subseteq> set (simulate_unlocks t root_id)"
proof -
  have "unlock_closed t {root_id} (set (simulate_unlocks t root_id))"
    using unlock_loop_props [of "[root_id]" "length t + 10" t] by (simp add: simulate_unlocks_def)
  with assms(2,3) obtain n where "(x, n) \<in> set t"
    "set (prerequisites n) \<subseteq> set (simulate_unlocks t root_id)"
    unfolding unlock_closed_def by blast
  with assms(1) show ?thesis by (auto intro: map_of_is_SomeI)
qed

text \<open>With a prerequisite-free root, the unlockable set is closed under prerequisites.\<close>

lemma unlockable_pred_closed:
  assumes "distinct (map fst t)" and "root_free t root_id"
    and "(p, n) \<in> prereq_rel t" and "n \<in> set (simulate_unlocks t root_id)"
  shows "p \<in> set (simulate_unlocks t root_id)"
proof (cases "n = root_id")
  case True
  with assms(2,3) show ?thesis by (auto simp add: root_free_def prereq_rel_def)
next
  case False
  from simulate_unlocks_closed [OF assms(1,4) False] assms(3) show ?thesis
    by (auto simp add: prereq_rel_def)
qed

subsection \<open>Rewiring under unlockable parents keeps the graph acyclic\<close>

lemma acyclic_rewired:
  assumes a: "acyclic r"
    and nw: "\<And>p n. (p, n) \<in> r' \<Longrightarrow> (p, n) \<in> r \<or> (p \<in> U \<and> n \<notin> U)"
    and cl: "\<And>p n. (p, n) \<in> r \<Longrightarrow> n \<in> U \<Longrightarrow> p \<in> U"
  shows "acyclic r'"
proof -
  have bk: "(a, b) \<in> r'\<^sup>* \<Longrightarrow> b \<in> U \<Longrightarrow> a \<in> U" for a b
  proof (induction rule: converse_rtrancl_induct)
    case base
    then show ?case by simp
  next
    case (step y z)
    then have "z \<in> U" by simp
    with nw [OF step(1)] cl show ?case by blast
  qed
  have sp: "(a, b) \<in> r'\<^sup>+ \<Longrightarrow> (a, b) \<in> r\<^sup>+ \<or> (\<exists>p n. (p, n) \<in> r' \<and> p \<in> U \<and> n \<notin> U
                  \<and> (a, p) \<in> r'\<^sup>* \<and> (n, b) \<in> r'\<^sup>*)" for a b
  proof (induction rule: trancl_induct)
    case (base y)
    with nw [OF base] show ?case by blast
  next
    case (step y z)
    from step(3) show ?case
    proof
      assume ay: "(a, y) \<in> r\<^sup>+"
      from nw [OF step(2)] show ?thesis
      proof
        assume "(y, z) \<in> r"
        with ay show ?thesis by (auto intro: trancl_into_trancl)
      next
        assume "y \<in> U \<and> z \<notin> U"
        moreover from step(1) have "(a, y) \<in> r'\<^sup>*" by (rule trancl_into_rtrancl)
        ultimately show ?thesis using step(2) by blast
      qed
    next
      assume "\<exists>p n. (p, n) \<in> r' \<and> p \<in> U \<and> n \<notin> U \<and> (a, p) \<in> r'\<^sup>* \<and> (n, y) \<in> r'\<^sup>*"
      then obtain p n where pn: "(p, n) \<in> r'" "p \<in> U" "n \<notin> U" "(a, p) \<in> r'\<^sup>*" "(n, y) \<in> r'\<^sup>*"
        by blast
      from pn(5) step(2) have "(n, z) \<in> r'\<^sup>*" by (rule rtrancl_into_rtrancl)
      with pn show ?thesis by blast
    qed
  qed
  show ?thesis
    unfolding acyclic_def
  proof (intro allI notI)
    fix x assume c: "(x, x) \<in> r'\<^sup>+"
    from sp [OF c] show False
    proof
      assume "(x, x) \<in> r\<^sup>+"
      with a show False by (simp add: acyclic_def)
    next
      assume "\<exists>p n. (p, n) \<in> r' \<and> p \<in> U \<and> n \<notin> U \<and> (x, p) \<in> r'\<^sup>* \<and> (n, x) \<in> r'\<^sup>*"
      then obtain p n where pn: "p \<in> U" "n \<notin> U" "(x, p) \<in> r'\<^sup>*" "(n, x) \<in> r'\<^sup>*" by blast
      from pn(4,3) have "(n, p) \<in> r'\<^sup>*" by (rule rtrancl_trans)
      from bk [OF this pn(1)] pn(2) show False by simp
    qed
  qed
qed

subsection \<open>One repair pass\<close>

lemma rewire_keys [simp]: "map fst (rewire fid prereqs blocking best t) = map fst t"
  by (simp add: rewire_def Let_def split: option.splits)

lemma find_best_parent_result:
  "find_best_parent mc t fid xs best = Inr (Some b) \<Longrightarrow>
   (b \<in> set xs \<and> b \<noteq> fid) \<or> best = Some b"
proof (induction xs arbitrary: best)
  case Nil
  then show ?case by simp
next
  case (Cons u xs)
  from Cons.prems show ?case
    by (auto split: if_splits option.splits dest!: Cons.IH)
qed

lemma find_best_parent_total:
  "set xs \<subseteq> fst ` set t \<Longrightarrow> (\<forall>b. best = Some b \<longrightarrow> b \<in> fst ` set t) \<Longrightarrow>
   \<exists>r. find_best_parent mc t fid xs best = Inr r"
proof (induction xs arbitrary: best)
  case Nil
  then show ?case by simp
next
  case (Cons u xs)
  from Cons.prems have u: "u \<in> fst ` set t" and xs: "set xs \<subseteq> fst ` set t" by simp_all
  from u obtain cand where cand: "map_of t u = Some cand"
    by (cases "map_of t u") (auto simp add: map_of_eq_None_iff)
  show ?case
  proof (cases best)
    case None
    with cand Cons.IH [OF xs, of None] Cons.IH [OF xs, of "Some u"] u show ?thesis by auto
  next
    case (Some b)
    with Cons.prems have "b \<in> fst ` set t" by simp
    then obtain bn where "map_of t b = Some bn"
      by (cases "map_of t b") (auto simp add: map_of_eq_None_iff)
    with Some cand Cons.IH [OF xs, of "Some b"] Cons.IH [OF xs, of "Some u"] u Cons.prems(2)
    show ?thesis by auto
  qed
qed

lemma fix_unreachable_preserves:
  assumes "fix_unreachable mc unl us t fa = Inr (t', fa')" and "P t" and "set us \<subseteq> S"
    and step: "\<And>t fid node b. P t \<Longrightarrow> fid \<in> S \<Longrightarrow> map_of t fid = Some node \<Longrightarrow>
             b \<in> set unl \<Longrightarrow> b \<noteq> fid \<Longrightarrow>
             find_best_parent mc t fid unl None = Inr (Some b) \<Longrightarrow>
             P (rewire fid (prerequisites node)
                  (filter (\<lambda>p. p \<notin> set unl) (prerequisites node)) b t)"
  shows "P t'"
  using assms(1,2,3)
proof (induction us arbitrary: t fa)
  case Nil
  then show ?case by simp
next
  case (Cons fid us)
  from Cons.prems(3) have fS: "fid \<in> S" and sub: "set us \<subseteq> S" by simp_all
  from Cons.prems(1) obtain node where node: "map_of t fid = Some node"
    by (cases "map_of t fid") simp_all
  define blocking where "blocking = filter (\<lambda>p. p \<notin> set unl) (prerequisites node)"
  show ?case
  proof (cases "blocking = []")
    case True
    with Cons.prems(1) node have "fix_unreachable mc unl us t fa = Inr (t', fa')"
      by (simp add: blocking_def Let_def)
    from Cons.IH [OF this Cons.prems(2) sub] show ?thesis .
  next
    case False
    with Cons.prems(1) node obtain best where best: "find_best_parent mc t fid unl None = Inr best"
      by (cases "find_best_parent mc t fid unl None") (simp_all add: blocking_def Let_def)
    show ?thesis
    proof (cases "\<exists>b. best = Some b \<and> b \<noteq> []")
      case True
      then obtain b where b: "best = Some b" "b \<noteq> []" by blast
      from find_best_parent_result [of mc t fid unl None b] best b
      have bm: "b \<in> set unl" "b \<noteq> fid" by auto
      from best b have fb: "find_best_parent mc t fid unl None = Inr (Some b)" by simp
      have P1: "P (rewire fid (prerequisites node) blocking b t)"
        unfolding blocking_def by (rule step [OF Cons.prems(2) fS node bm fb])
      from Cons.prems(1) node False best b
      have "fix_unreachable mc unl us (rewire fid (prerequisites node) blocking b t) True
              = Inr (t', fa')"
        by (simp add: blocking_def Let_def)
      from Cons.IH [OF this P1 sub] show ?thesis .
    next
      case no: False
      with Cons.prems(1) node False best
      have "fix_unreachable mc unl us t fa = Inr (t', fa')"
        by (cases best) (auto simp add: blocking_def Let_def split: if_splits)
      from Cons.IH [OF this Cons.prems(2) sub] show ?thesis .
    qed
  qed
qed

lemma fix_unreachable_total:
  assumes "set unl \<subseteq> fst ` set t" and "set us \<subseteq> fst ` set t"
  shows "\<exists>r. fix_unreachable mc unl us t fa = Inr r"
  using assms
proof (induction us arbitrary: t fa)
  case Nil
  then show ?case by simp
next
  case (Cons fid us)
  from Cons.prems obtain node where node: "map_of t fid = Some node"
    by (cases "map_of t fid") (auto simp add: map_of_eq_None_iff)
  from find_best_parent_total [OF Cons.prems(1), of None mc fid]
  obtain best where best: "find_best_parent mc t fid unl None = Inr best" by auto
  have k: "fst ` set (rewire fid ps bl b t) = fst ` set t" for ps bl b
    using rewire_keys [of fid ps bl b t] by (metis set_map)
  have r1: "\<exists>r. fix_unreachable mc unl us t fa = Inr r"
    using Cons.prems by (intro Cons.IH) simp_all
  have r2: "\<exists>r. fix_unreachable mc unl us (rewire fid ps bl b t) True = Inr r" for ps bl b
    using Cons.prems by (intro Cons.IH) (simp_all add: k)
  show ?case
    using node best r1 r2 by (cases best) (simp_all add: Let_def)
qed

lemma aggressive_fold_preserves:
  assumes "P t" and "set us \<subseteq> S"
    and step: "\<And>t fid node. P t \<Longrightarrow> fid \<in> S \<Longrightarrow> fid \<noteq> root_id \<Longrightarrow> map_of t fid = Some node \<Longrightarrow>
             P (attach_to_root root_id fid t)"
  shows "P (fold (attach_to_root root_id) us t)"
  using assms(1,2)
proof (induction us arbitrary: t)
  case Nil
  then show ?case by simp
next
  case (Cons fid us)
  have "P (attach_to_root root_id fid t)"
  proof (cases "fid = root_id \<or> map_of t fid = None")
    case True
    then show ?thesis using Cons.prems(1) by (auto simp add: attach_to_root_def)
  next
    case False
    then obtain node where "map_of t fid = Some node" "fid \<noteq> root_id" by auto
    with step [OF Cons.prems(1)] Cons.prems(2) show ?thesis by simp
  qed
  with Cons show ?case by simp
qed

subsection \<open>Only unreachable nodes get new prerequisites, and only unlockable ones\<close>

definition reparent_rel :: "string set \<Rightarrow> string set \<Rightarrow> node_table \<Rightarrow> node_table \<Rightarrow> bool" where
  "reparent_rel U S t0 t \<longleftrightarrow>
     map fst t = map fst t0
     \<and> (\<forall>x. rel_option (\<lambda>n n'. prerequisites n' = prerequisites n
                                  \<or> (x \<in> S \<and> set (prerequisites n') \<subseteq> U))
               (map_of t0 x) (map_of t x))"

lemma reparent_rel_refl: "reparent_rel U S t t"
  unfolding reparent_rel_def
proof (intro conjI allI)
  fix x show "rel_option (\<lambda>n n'. prerequisites n' = prerequisites n
                                  \<or> (x \<in> S \<and> set (prerequisites n') \<subseteq> U))
               (map_of t x) (map_of t x)"
    by (cases "map_of t x") simp_all
qed simp

lemma reparent_rel_step:
  assumes r: "reparent_rel U S t0 t" and k: "map fst t' = map fst t"
    and s: "\<And>x. rel_option (reparented fid new x) (map_of t x) (map_of t' x)"
    and f: "fid \<in> S" and n: "set new \<subseteq> U"
  shows "reparent_rel U S t0 t'"
  unfolding reparent_rel_def
proof (intro conjI allI)
  show "map fst t' = map fst t0" using r k by (simp add: reparent_rel_def)
next
  fix x
  from r have r0: "rel_option (\<lambda>n n'. prerequisites n' = prerequisites n
                                  \<or> (x \<in> S \<and> set (prerequisites n') \<subseteq> U))
               (map_of t0 x) (map_of t x)" by (simp add: reparent_rel_def)
  show "rel_option (\<lambda>n n'. prerequisites n' = prerequisites n
                                  \<or> (x \<in> S \<and> set (prerequisites n') \<subseteq> U))
               (map_of t0 x) (map_of t' x)"
  proof (cases "map_of t0 x")
    case None
    with r0 have "map_of t x = None" by (cases "map_of t x") simp_all
    with s [of x] have "map_of t' x = None" by (cases "map_of t' x") simp_all
    with None show ?thesis by simp
  next
    case (Some n0)
    with r0 obtain n1 where n1: "map_of t x = Some n1"
      "prerequisites n1 = prerequisites n0 \<or> (x \<in> S \<and> set (prerequisites n1) \<subseteq> U)"
      by (cases "map_of t x") simp_all
    with s [of x] obtain n2 where n2: "map_of t' x = Some n2" "reparented fid new x n1 n2"
      by (cases "map_of t' x") simp_all
    from n1(2) n2(2) f n have "prerequisites n2 = prerequisites n0
        \<or> (x \<in> S \<and> set (prerequisites n2) \<subseteq> U)"
      by (auto simp add: reparented_def split: if_splits)
    with Some n2(1) show ?thesis by simp
  qed
qed

lemma reparent_rel_edges:
  assumes "reparent_rel U S t0 t" and "(p, n) \<in> prereq_rel t"
  shows "(p, n) \<in> prereq_rel t0 \<or> (p \<in> U \<and> n \<in> S)"
proof -
  from assms(2) obtain nd where nd: "map_of t n = Some nd" "p \<in> set (prerequisites nd)"
    by (auto simp add: prereq_rel_def)
  from assms(1) have "rel_option (\<lambda>a b. prerequisites b = prerequisites a
                                  \<or> (n \<in> S \<and> set (prerequisites b) \<subseteq> U))
               (map_of t0 n) (map_of t n)" by (simp add: reparent_rel_def)
  with nd(1) obtain n0 where "map_of t0 n = Some n0"
    "prerequisites nd = prerequisites n0 \<or> (n \<in> S \<and> set (prerequisites nd) \<subseteq> U)"
    by (cases "map_of t0 n") simp_all
  with nd(2) show ?thesis by (auto simp add: prereq_rel_def)
qed

lemma reparent_rel_root_free:
  assumes "reparent_rel U S t0 t" and "root_free t0 root_id" and "root_id \<notin> S"
  shows "root_free t root_id"
proof -
  from assms(1) have "rel_option (\<lambda>a b. prerequisites b = prerequisites a
                                  \<or> (root_id \<in> S \<and> set (prerequisites b) \<subseteq> U))
               (map_of t0 root_id) (map_of t root_id)" by (simp add: reparent_rel_def)
  with assms(2,3) show ?thesis
    by (cases "map_of t0 root_id"; cases "map_of t root_id") (simp_all add: root_free_def)
qed

lemma reparent_rel_acyclic:
  assumes r: "reparent_rel U S t0 t" and d: "distinct (map fst t0)" and f: "root_free t0 root_id"
    and U: "U = set (simulate_unlocks t0 root_id)" and S: "S \<inter> U = {}"
    and a: "acyclic (prereq_rel t0)"
  shows "acyclic (prereq_rel t)"
proof (rule acyclic_rewired [OF a, where U = U])
  fix p n assume "(p, n) \<in> prereq_rel t"
  from reparent_rel_edges [OF r this] S
  show "(p, n) \<in> prereq_rel t0 \<or> (p \<in> U \<and> n \<notin> U)" by auto
next
  fix p n assume "(p, n) \<in> prereq_rel t0" "n \<in> U"
  with unlockable_pred_closed [OF d f] U show "p \<in> U" by simp
qed

subsection \<open>The whole repair\<close>

lemma repair_passes_preserves:
  assumes "repair_passes k h mc root_id t = Inr t'" and "Q t"
    and step: "\<And>t t1 fa. Q t \<Longrightarrow>
       fix_unreachable mc (sort_key h (simulate_unlocks t root_id))
         (filter (\<lambda>fid. fid \<notin> set (simulate_unlocks t root_id)) (map fst t)) t False = Inr (t1, fa)
       \<Longrightarrow> Q t1"
    and agg: "\<And>t t1 t2. Q t \<Longrightarrow>
       fix_unreachable mc (sort_key h (simulate_unlocks t root_id))
         (filter (\<lambda>fid. fid \<notin> set (simulate_unlocks t root_id)) (map fst t)) t False = Inr (t1, False)
       \<Longrightarrow> aggressive_fix root_id
             (filter (\<lambda>fid. fid \<notin> set (simulate_unlocks t root_id)) (map fst t)) t1 = Inr t2
       \<Longrightarrow> Q t2"
  shows "Q t'"
  using assms(1,2)
proof (induction k arbitrary: t)
  case 0
  then show ?case by simp
next
  case (Suc k)
  define us where "us = filter (\<lambda>fid. fid \<notin> set (simulate_unlocks t root_id)) (map fst t)"
  show ?case
  proof (cases "us = []")
    case True
    with Suc.prems show ?thesis by (simp add: us_def Let_def)
  next
    case False
    with Suc.prems(1) obtain t1 fa where
      f: "fix_unreachable mc (sort_key h (simulate_unlocks t root_id)) us t False = Inr (t1, fa)"
      by (cases "fix_unreachable mc (sort_key h (simulate_unlocks t root_id)) us t False")
         (auto simp add: us_def Let_def)
    show ?thesis
    proof (cases fa)
      case True
      with Suc.prems(1) False f have "repair_passes k h mc root_id t1 = Inr t'"
        by (simp add: us_def Let_def)
      moreover have "Q t1" using step [OF Suc.prems(2)] f by (simp add: us_def)
      ultimately show ?thesis by (rule Suc.IH)
    next
      case nf: False
      with Suc.prems(1) False f have "aggressive_fix root_id us t1 = Inr t'"
        by (simp add: us_def Let_def)
      with agg [OF Suc.prems(2)] f nf show ?thesis by (simp add: us_def)
    qed
  qed
qed

lemma fix_unreachable_links:
  assumes "fix_unreachable mc unl us t fa = Inr (t', fa')"
    and "bidirectional t \<and> children_distinct t"
  shows "bidirectional t' \<and> children_distinct t'"
proof (rule fix_unreachable_preserves [OF assms(1), where P = "\<lambda>t. bidirectional t \<and> children_distinct t"
        and S = UNIV])
  show "bidirectional t \<and> children_distinct t" by (rule assms(2))
  show "set us \<subseteq> UNIV" by simp
next
  fix t :: node_table and fid node b
  assume "bidirectional t \<and> children_distinct t" and "map_of t fid = Some node"
  then show "bidirectional (rewire fid (prerequisites node)
                  (filter (\<lambda>p. p \<notin> set unl) (prerequisites node)) b t)
             \<and> children_distinct (rewire fid (prerequisites node)
                  (filter (\<lambda>p. p \<notin> set unl) (prerequisites node)) b t)"
    by (auto intro: rewire_bidirectional rewire_children_distinct)
qed

lemma aggressive_fix_links:
  assumes "aggressive_fix root_id us t = Inr t'"
    and "bidirectional t \<and> children_distinct t"
  shows "bidirectional t' \<and> children_distinct t'"
proof -
  from assms(1) have t': "t' = fold (attach_to_root root_id) us t"
    by (auto simp add: aggressive_fix_def split: option.splits)
  show ?thesis
    unfolding t'
  proof (rule aggressive_fold_preserves [where P = "\<lambda>t. bidirectional t \<and> children_distinct t"
        and S = UNIV])
    show "bidirectional t \<and> children_distinct t" by (rule assms(2))
    show "set us \<subseteq> UNIV" by simp
  next
    fix t :: node_table and fid
    assume "bidirectional t \<and> children_distinct t"
    then show "bidirectional (attach_to_root root_id fid t)
               \<and> children_distinct (attach_to_root root_id fid t)"
      by (auto intro: attach_to_root_bidirectional attach_to_root_children_distinct)
  qed
qed

lemma repair_passes_links:
  assumes "repair_passes k h mc root_id t = Inr t'"
    and "bidirectional t \<and> children_distinct t"
  shows "bidirectional t' \<and> children_distinct t'"
proof (rule repair_passes_preserves [OF assms(1), where Q = "\<lambda>t. bidirectional t \<and> children_distinct t"])
  show "bidirectional t \<and> children_distinct t" by (rule assms(2))
next
  fix t t1 :: node_table and fa
  assume "bidirectional t \<and> children_distinct t"
    and "fix_unreachable mc (sort_key h (simulate_unlocks t root_id))
         (filter (\<lambda>fid. fid \<notin> set (simulate_unlocks t root_id)) (map fst t)) t False = Inr (t1, fa)"
  then show "bidirectional t1 \<and> children_distinct t1"
    by (rule fix_unreachable_links [rotated])
next
  fix t t1 t2 :: node_table
  assume q: "bidirectional t \<and> children_distinct t"
    and f: "fix_unreachable mc (sort_key h (simulate_unlocks t root_id))
         (filter (\<lambda>fid. fid \<notin> set (simulate_unlocks t root_id)) (map fst t)) t False = Inr (t1, False)"
    and a: "aggressive_fix root_id
             (filter (\<lambda>fid. fid \<notin> set (simulate_unlocks t root_id)) (map fst t)) t1 = Inr t2"
  from fix_unreachable_links [OF f q] have "bidirectional t1 \<and> children_distinct t1" .
  from aggressive_fix_links [OF a this] show "bidirectional t2 \<and> children_distinct t2" .
qed

lemma fix_unreachable_reparents:
  assumes f: "fix_unreachable mc unl us t fa = Inr (t', fa')"
  shows "reparent_rel (set unl) (set us) t t'"
proof (rule fix_unreachable_preserves [OF f, where P = "reparent_rel (set unl) (set us) t"
        and S = "set us"])
  show "reparent_rel (set unl) (set us) t t" by (rule reparent_rel_refl)
  show "set us \<subseteq> set us" by simp
next
  fix ta :: node_table and fid node b
  assume r: "reparent_rel (set unl) (set us) t ta" and fs: "fid \<in> set us"
    and b: "b \<in> set unl"
  define blocking where "blocking = filter (\<lambda>p. p \<notin> set unl) (prerequisites node)"
  define kept where "kept = filter (\<lambda>p. p \<notin> set blocking) (prerequisites node)"
  define new where "new = (if b \<in> set kept then kept else kept @ [b])"
  have "set kept \<subseteq> set unl" by (auto simp add: kept_def blocking_def)
  with b have n: "set new \<subseteq> set unl" by (auto simp add: new_def)
  have s: "rel_option (reparented fid new x) (map_of ta x)
             (map_of (rewire fid (prerequisites node) blocking b ta) x)" for x
    by (rule rewire_reparented [OF kept_def new_def])
  have k: "map fst (rewire fid (prerequisites node) blocking b ta) = map fst ta" by simp
  from reparent_rel_step [OF r k s fs n]
  show "reparent_rel (set unl) (set us) t
          (rewire fid (prerequisites node) (filter (\<lambda>p. p \<notin> set unl) (prerequisites node)) b ta)"
    by (simp add: blocking_def)
qed

lemma aggressive_fix_reparents:
  assumes a: "aggressive_fix root_id us t1 = Inr t2" and r: "reparent_rel U (set us) t t1"
    and root: "root_id \<in> U"
  shows "reparent_rel U (set us) t t2"
proof -
  from a have t2: "t2 = fold (attach_to_root root_id) us t1"
    by (auto simp add: aggressive_fix_def split: option.splits)
  show ?thesis
    unfolding t2
  proof (rule aggressive_fold_preserves [where P = "reparent_rel U (set us) t" and S = "set us"])
    show "reparent_rel U (set us) t t1" by (rule r)
    show "set us \<subseteq> set us" by simp
  next
    fix ta :: node_table and fid node
    assume ra: "reparent_rel U (set us) t ta" and fs: "fid \<in> set us" and ne: "fid \<noteq> root_id"
      and node: "map_of ta fid = Some node"
    have s: "rel_option (reparented fid [root_id] x) (map_of ta x)
               (map_of (attach_to_root root_id fid ta) x)" for x
      by (rule attach_to_root_reparented [OF node ne])
    have k: "map fst (attach_to_root root_id fid ta) = map fst ta" by simp
    from root have n: "set [root_id] \<subseteq> U" by simp
    from reparent_rel_step [OF ra k s fs n]
    show "reparent_rel U (set us) t (attach_to_root root_id fid ta)" .
  qed
qed

definition repair_inv :: "string \<Rightarrow> node_table \<Rightarrow> bool" where
  "repair_inv root_id t \<longleftrightarrow>
     distinct (map fst t) \<and> root_free t root_id \<and> acyclic (prereq_rel t)"

lemma reparent_rel_inv:
  assumes q: "repair_inv root_id t"
    and r: "reparent_rel (set (simulate_unlocks t root_id))
              (set (filter (\<lambda>fid. fid \<notin> set (simulate_unlocks t root_id)) (map fst t))) t t1"
  shows "repair_inv root_id t1"
proof -
  from q have d: "distinct (map fst t)" and f: "root_free t root_id"
    and a: "acyclic (prereq_rel t)" by (simp_all add: repair_inv_def)
  have dis: "set (filter (\<lambda>fid. fid \<notin> set (simulate_unlocks t root_id)) (map fst t))
               \<inter> set (simulate_unlocks t root_id) = {}" by auto
  have nr: "root_id \<notin> set (filter (\<lambda>fid. fid \<notin> set (simulate_unlocks t root_id)) (map fst t))"
    using simulate_unlocks_root [of root_id t] by simp
  from r d have "distinct (map fst t1)" by (simp add: reparent_rel_def)
  moreover have "root_free t1 root_id" by (rule reparent_rel_root_free [OF r f nr])
  moreover have "acyclic (prereq_rel t1)"
    by (rule reparent_rel_acyclic [OF r d f refl dis a])
  ultimately show ?thesis by (simp add: repair_inv_def)
qed

lemma repair_passes_inv:
  assumes "repair_passes k h mc root_id t = Inr t'" and "repair_inv root_id t"
  shows "repair_inv root_id t'"
proof (rule repair_passes_preserves [OF assms(1), where Q = "repair_inv root_id"])
  show "repair_inv root_id t" by (rule assms(2))
next
  fix t t1 :: node_table and fa
  assume q: "repair_inv root_id t"
    and f: "fix_unreachable mc (sort_key h (simulate_unlocks t root_id))
         (filter (\<lambda>fid. fid \<notin> set (simulate_unlocks t root_id)) (map fst t)) t False = Inr (t1, fa)"
  from fix_unreachable_reparents [OF f]
  have "reparent_rel (set (simulate_unlocks t root_id))
              (set (filter (\<lambda>fid. fid \<notin> set (simulate_unlocks t root_id)) (map fst t))) t t1"
    by simp
  with q show "repair_inv root_id t1" by (rule reparent_rel_inv)
next
  fix t t1 t2 :: node_table
  assume q: "repair_inv root_id t"
    and f: "fix_unreachable mc (sort_key h (simulate_unlocks t root_id))
         (filter (\<lambda>fid. fid \<notin> set (simulate_unlocks t root_id)) (map fst t)) t False = Inr (t1, False)"
    and a: "aggressive_fix root_id
             (filter (\<lambda>fid. fid \<notin> set (simulate_unlocks t root_id)) (map fst t)) t1 = Inr t2"
  from fix_unreachable_reparents [OF f]
  have r1: "reparent_rel (set (simulate_unlocks t root_id))
              (set (filter (\<lambda>fid. fid \<notin> set (simulate_unlocks t root_id)) (map fst t))) t t1"
    by simp
  have "reparent_rel (set (simulate_unlocks t root_id))
              (set (filter (\<lambda>fid. fid \<notin> set (simulate_unlocks t root_id)) (map fst t))) t t2"
    by (rule aggressive_fix_reparents [OF a r1 simulate_unlocks_root])
  with q show "repair_inv root_id t2" by (rule reparent_rel_inv)
qed

lemma fix_unreachable_keys:
  assumes "fix_unreachable mc unl us t fa = Inr (t', fa')"
  shows "map fst t' = map fst t"
  using fix_unreachable_reparents [OF assms] by (simp add: reparent_rel_def)

lemma repair_passes_total:
  assumes "root_id \<in> fst ` set t"
  shows "\<exists>t'. repair_passes k h mc root_id t = Inr t'"
  using assms
proof (induction k arbitrary: t)
  case 0
  then show ?case by simp
next
  case (Suc k)
  define us where "us = filter (\<lambda>fid. fid \<notin> set (simulate_unlocks t root_id)) (map fst t)"
  have u: "set (sort_key h (simulate_unlocks t root_id)) \<subseteq> fst ` set t"
    using simulate_unlocks_keys [of t root_id] Suc.prems by auto
  have s: "set us \<subseteq> fst ` set t" by (auto simp add: us_def)
  from fix_unreachable_total [OF u s, of mc False]
  obtain t1 fa where f: "fix_unreachable mc (sort_key h (simulate_unlocks t root_id)) us t False
      = Inr (t1, fa)" by auto
  from fix_unreachable_keys [OF f] have k1: "fst ` set t1 = fst ` set t" by (metis set_map)
  with Suc.prems obtain rn where "map_of t1 root_id = Some rn"
    by (cases "map_of t1 root_id") (auto simp add: map_of_eq_None_iff)
  then have a: "\<exists>t'. aggressive_fix root_id us t1 = Inr t'" by (simp add: aggressive_fix_def)
  from Suc.IH [of t1] k1 Suc.prems have r: "\<exists>t'. repair_passes k h mc root_id t1 = Inr t'" by simp
  show ?case using f a r by (simp add: us_def Let_def)
qed

subsection \<open>The links alone\<close>

definition linked :: "node_table \<Rightarrow> bool" where
  "linked t \<longleftrightarrow> bidirectional t \<and> children_distinct t"

lemma add_edges_linked:
  "linked t \<Longrightarrow> linked (fold (\<lambda>c. add_convergence_edge c fid) cs t)"
  using fold_edges_bidirectional [of t id fid cs] fold_edges_children_distinct [of t id fid cs]
  by (simp add: linked_def)

lemma enforce_node_linked:
  assumes "linked t"
  shows "linked (enforce_node reachable root_id fid t)"
  using enforce_node_cases [of reachable root_id fid t] assms add_edges_linked by auto

lemma enforce_high_tier_convergence_linked:
  assumes "linked t"
  shows "linked (enforce_high_tier_convergence t root_id)"
proof -
  have "linked t \<Longrightarrow> linked (fold (enforce_node reachable root_id) ks t)" for reachable ks t
    by (induction ks arbitrary: t) (simp_all add: enforce_node_linked)
  with assms show ?thesis by (simp add: enforce_high_tier_convergence_def Let_def)
qed

lemma add_edge_linked: "linked t \<Longrightarrow> linked (add_convergence_edge c fid t)"
  using add_edges_linked [of t fid "[c]"] by simp

lemma convergence_pick_linked:
  "linked t \<Longrightarrow> linked (fst (convergence_pick available reachable node_id ds t g))"
proof (induction ds arbitrary: t g)
  case Nil
  then show ?case by simp
next
  case (Cons d ds)
  then show ?case
    by (cases "map_of t node_id") (auto simp add: Let_def add_edge_linked case_prod_beta)
qed

lemma convergence_rounds_linked:
  "linked t \<Longrightarrow>
   linked (fst (convergence_rounds k max_prereqs available reachable node_id t g))"
proof (induction k arbitrary: t g)
  case 0
  then show ?case by simp
next
  case (Suc k)
  show ?case
  proof (cases "map_of t node_id")
    case None
    then show ?thesis using Suc.prems by simp
  next
    case (Some node)
    obtain t' g' where p: "convergence_pick available reachable node_id
            (rev [0..depth node - 1]) t g = (t', g')" by (cases "convergence_pick available reachable node_id
            (rev [0..depth node - 1]) t g")
    have "linked t'" using convergence_pick_linked [OF Suc.prems, of available reachable node_id
            "rev [0..depth node - 1]" g] p by simp
    from Suc.IH [OF this] show ?thesis using Some p Suc.prems by simp
  qed
qed

lemma maybe_add_convergence_linked:
  assumes "linked t"
  shows "linked (fst (maybe_add_convergence chance node_id available t root_id g))"
  using maybe_add_convergence_cases [of chance node_id available t root_id g]
    convergence_rounds_linked [OF assms] assms
  by auto

lemma link_nodes_linked: "linked t \<Longrightarrow> linked (link_nodes p c t)"
  by (simp add: linked_def link_nodes_bidirectional link_nodes_children_distinct)

lemma ensure_all_reachable_linked:
  "ensure_all_reachable h mc t root_id = Inr t' \<Longrightarrow> linked t \<Longrightarrow> linked t'"
  unfolding ensure_all_reachable_def linked_def by (rule repair_passes_links)

subsection \<open>Linking a node that has no children yet\<close>

lemma link_nodes_acyclic:
  assumes a: "acyclic (prereq_rel t)" and b: "bidirectional t"
    and c: "map_of t child_id = Some cn" and e: "children cn = []" and ne: "parent_id \<noteq> child_id"
  shows "acyclic (prereq_rel (link_nodes parent_id child_id t))"
proof -
  have "(child_id, parent_id) \<notin> (prereq_rel t)\<^sup>*"
  proof
    assume "(child_id, parent_id) \<in> (prereq_rel t)\<^sup>*"
    with ne obtain x where "(child_id, x) \<in> prereq_rel t"
      by (auto elim: converse_rtranclE)
    then obtain nx where nx: "map_of t x = Some nx" "child_id \<in> set (prerequisites nx)"
      by (auto simp add: prereq_rel_def)
    from b c nx have "x \<in> set (children cn)" by (simp add: bidirectional_iff)
    with e show False by simp
  qed
  with a have "acyclic (insert (parent_id, child_id) (prereq_rel t))"
    by (simp add: acyclic_insert)
  then show ?thesis using link_nodes_prereq_rel by (rule acyclic_subset)
qed

subsection \<open>Example tables\<close>

definition mk_node :: "string \<Rightarrow> string \<Rightarrow> int \<Rightarrow> string list \<Rightarrow> string list \<Rightarrow> TreeNode" where
  "mk_node tr th d cs ps = \<lparr>tier = tr, theme = th, depth = d, children = cs, prerequisites = ps\<rparr>"

text \<open>
  A root, an Apprentice with three Adept children, and an Expert below the first Adept:
  every node has at most three children.
\<close>

definition crowded_table :: node_table where
  "crowded_table =
     [(''R'', mk_node ''Novice'' ''frost'' 0 [''A''] []),
      (''A'', mk_node ''Apprentice'' ''frost'' 1 [''B1'', ''B2'', ''B3''] [''R'']),
      (''B1'', mk_node ''Adept'' ''fire'' 2 [''E''] [''A'']),
      (''B2'', mk_node ''Adept'' ''fire'' 2 [] [''A'']),
      (''B3'', mk_node ''Adept'' ''fire'' 2 [] [''A'']),
      (''E'', mk_node ''Expert'' ''fire'' 3 [] [''B1''])]"

definition crowded_available :: "(int \<times> string list) list" where
  "crowded_available = [(0, [''R'']), (1, [''A'']), (2, [''B1'', ''B2'', ''B3'']), (3, [''E''])]"

definition child_counts :: "node_table \<Rightarrow> (string \<times> nat) list" where
  "child_counts t = map (\<lambda>e. (fst e, length (children (snd e)))) t"

definition prereqs_of :: "node_table \<Rightarrow> (string \<times> string list) list" where
  "prereqs_of t = map (\<lambda>e. (fst e, prerequisites (snd e))) t"

lemma crowded_bidirectional: "bidirectional crowded_table"
  by code_simp

lemma crowded_children_distinct: "children_distinct crowded_table"
  by code_simp

lemma crowded_keys: "distinct (map fst crowded_table)"
  by code_simp

lemma crowded_root_free: "root_free crowded_table ''R''"
  by code_simp

lemma acyclic_by_depth:
  assumes "\<And>x y nx ny. map_of t y = Some ny \<Longrightarrow> x \<in> set (prerequisites ny) \<Longrightarrow>
             (\<exists>nx. map_of t x = Some nx \<and> depth nx < depth ny)"
  shows "acyclic (prereq_rel t)"
proof (rule acyclicI_order [where f = "\<lambda>x. case map_of t x of None \<Rightarrow> 0 | Some n \<Rightarrow> - depth n"])
  fix a b assume "(a, b) \<in> prereq_rel t"
  then obtain nb where nb: "map_of t b = Some nb" "a \<in> set (prerequisites nb)"
    by (auto simp add: prereq_rel_def)
  from assms [OF nb] obtain na where "map_of t a = Some na" "depth na < depth nb" by blast
  with nb(1) show "(case map_of t b of None \<Rightarrow> 0 | Some n \<Rightarrow> - depth n)
        < (case map_of t a of None \<Rightarrow> 0 | Some n \<Rightarrow> - depth n)" by simp
qed

definition depth_ordered :: "node_table \<Rightarrow> bool" where
  "depth_ordered t \<longleftrightarrow>
     (\<forall>e \<in> set t. \<forall>x \<in> set (prerequisites (snd e)).
        case map_of t x of None \<Rightarrow> False | Some nx \<Rightarrow> depth nx < depth (snd e))"

lemma depth_ordered_acyclic:
  assumes "depth_ordered t"
  shows "acyclic (prereq_rel t)"
proof (rule acyclic_by_depth)
  fix x y ny assume y: "map_of t y = Some ny" and x: "x \<in> set (prerequisites ny)"
  from y have "(y, ny) \<in> set t" by (rule map_of_SomeD)
  with assms have "\<forall>x \<in> set (prerequisites (snd (y, ny))).
        case map_of t x of None \<Rightarrow> False | Some nx \<Rightarrow> depth nx < depth (snd (y, ny))"
    unfolding depth_ordered_def by (rule bspec)
  with x have "case map_of t x of None \<Rightarrow> False | Some nx \<Rightarrow> depth nx < depth ny"
    by (auto split: option.splits)
  then show "\<exists>nx. map_of t x = Some nx \<and> depth nx < depth ny"
    by (cases "map_of t x") simp_all
qed

lemma crowded_acyclic: "prereq_acyclic crowded_table"
  unfolding prereq_acyclic_def
  by (rule depth_ordered_acyclic) code_simp

subsection \<open>The capacity of a node\<close>

text \<open>The ids whose \<^verbatim>\<open>len(node.children)\<close> is above \<^verbatim>\<open>max_children_per_node\<close>.\<close>

definition over_capacity :: "int \<Rightarrow> node_table \<Rightarrow> string list" where
  "over_capacity max_children t =
     filter (\<lambda>k. case map_of t k of
                   None \<Rightarrow> False
                 | Some n \<Rightarrow> max_children < int (length (children n)))
       (map fst t)"

lemma over_capacity_subset:
  "set (over_capacity mc t) \<subseteq> S
   \<longleftrightarrow> (\<forall>x n. map_of t x = Some n \<longrightarrow> x \<notin> S \<longrightarrow> int (length (children n)) \<le> mc)"
proof
  assume l: "set (over_capacity mc t) \<subseteq> S"
  show "\<forall>x n. map_of t x = Some n \<longrightarrow> x \<notin> S \<longrightarrow> int (length (children n)) \<le> mc"
  proof (intro allI impI)
    fix x n
    assume m: "map_of t x = Some n" and x: "x \<notin> S"
    from m have "x \<in> set (map fst t)" by (auto dest: map_of_SomeD intro: rev_image_eqI)
    with l x m show "int (length (children n)) \<le> mc"
      by (auto simp add: over_capacity_def subset_iff)
  qed
next
  assume "\<forall>x n. map_of t x = Some n \<longrightarrow> x \<notin> S \<longrightarrow> int (length (children n)) \<le> mc"
  then show "set (over_capacity mc t) \<subseteq> S"
    by (fastforce simp add: over_capacity_def split: option.splits)
qed

definition grown :: "string \<Rightarrow> string \<Rightarrow> TreeNode \<Rightarrow> TreeNode \<Rightarrow> bool" where
  "grown best x n n' \<longleftrightarrow>
     length (children n') \<le> length (children n) + (if x = best then 1 else 0)"

lemma fold_drop_lengths:
  "rel_option (\<lambda>n n1. length (children n1) \<le> length (children n)) (map_of t x)
     (map_of (fold (drop_child fid) bs t) x)"
proof (induction bs arbitrary: t)
  case Nil
  then show ?case by (cases "map_of t x") simp_all
next
  case (Cons b bs)
  have s: "rel_option (\<lambda>n n1. length (children n1) \<le> length (children n)) (map_of t x)
             (map_of (drop_child fid b t) x)"
    by (cases "map_of t x") (auto simp add: drop_child_simple on_node_lookup length_remove1)
  from Cons [of "drop_child fid b t"] s show ?case
    by (cases "map_of t x"; cases "map_of (drop_child fid b t) x";
        cases "map_of (fold (drop_child fid) bs (drop_child fid b t)) x") simp_all
qed

lemma relink_grown:
  assumes t1: "t1 = fold (drop_child fid) bs t"
    and t2: "t2 = on_node fid (\<lambda>n. n\<lparr>prerequisites := new\<rparr>) t1"
    and t3: "t3 = on_node best
                 (\<lambda>n. if fid \<in> set (children n) then n else n\<lparr>children := children n @ [fid]\<rparr>) t2"
    and t4: "t4 = t3 \<or> (\<exists>dp. t4 = on_node fid (\<lambda>n. n\<lparr>depth := dp\<rparr>) t3)"
  shows "rel_option (grown best x) (map_of t x) (map_of t4 x)"
proof -
  have r1: "rel_option (\<lambda>n n1. length (children n1) \<le> length (children n))
              (map_of t x) (map_of t1 x)"
    unfolding t1 by (rule fold_drop_lengths)
  from relink_steps [where D = "\<lambda>n n1. length (children n1) \<le> length (children n)",
      OF r1 t2 t3 t4]
  show ?thesis
    by (rule option.rel_mono_strong) (auto simp add: grown_def)
qed

lemma rewire_grown:
  "rel_option (grown best x) (map_of t x) (map_of (rewire fid prereqs blocking best t) x)"
proof -
  define kept where "kept = filter (\<lambda>p. p \<notin> set blocking) prereqs"
  define new where "new = (if best \<in> set kept then kept else kept @ [best])"
  define t1 where "t1 = fold (drop_child fid) blocking t"
  define t2 where "t2 = on_node fid (\<lambda>n. n\<lparr>prerequisites := new\<rparr>) t1"
  define t3 where "t3 = on_node best
                 (\<lambda>n. if fid \<in> set (children n) then n else n\<lparr>children := children n @ [fid]\<rparr>) t2"
  have r: "rewire fid prereqs blocking best t
           = (case map_of t3 best of None \<Rightarrow> t3
              | Some parent_node \<Rightarrow> on_node fid (\<lambda>n. n\<lparr>depth := depth parent_node + 1\<rparr>) t3)"
    unfolding rewire_def Let_def t3_def t2_def t1_def new_def kept_def by (rule refl)
  then have t4: "rewire fid prereqs blocking best t = t3
      \<or> (\<exists>dp. rewire fid prereqs blocking best t = on_node fid (\<lambda>n. n\<lparr>depth := dp\<rparr>) t3)"
    by (cases "map_of t3 best") auto
  from relink_grown [OF t1_def t2_def t3_def t4, of x]
  show ?thesis .
qed

lemma attach_to_root_grown:
  assumes "map_of t fid = Some node" and "fid \<noteq> root_id"
  shows "rel_option (grown root_id x) (map_of t x) (map_of (attach_to_root root_id fid t) x)"
proof -
  define t1 where "t1 = fold (drop_child fid) (prerequisites node) t"
  define t2 where "t2 = on_node fid (\<lambda>n. n\<lparr>prerequisites := [root_id]\<rparr>) t1"
  define t3 where "t3 = on_node root_id
                 (\<lambda>n. if fid \<in> set (children n) then n else n\<lparr>children := children n @ [fid]\<rparr>) t2"
  have "attach_to_root root_id fid t = on_node fid (\<lambda>n. n\<lparr>depth := 1\<rparr>) t3"
    using assms by (simp add: attach_to_root_def Let_def t3_def t2_def t1_def)
  then have t4: "attach_to_root root_id fid t = t3
      \<or> (\<exists>dp. attach_to_root root_id fid t = on_node fid (\<lambda>n. n\<lparr>depth := dp\<rparr>) t3)"
    by blast
  from relink_grown [OF t1_def t2_def t3_def t4, of x]
  show ?thesis .
qed

text \<open>The parent chosen by the search has a free slot.\<close>

lemma find_best_parent_capacity:
  "find_best_parent mc t fid xs best = Inr (Some b) \<Longrightarrow>
   (\<exists>cand. map_of t b = Some cand \<and> int (length (children cand)) < mc) \<or> best = Some b"
proof (induction xs arbitrary: best)
  case Nil
  then show ?case by simp
next
  case (Cons u xs)
  from Cons.prems show ?case
    by (auto split: if_splits option.splits dest!: Cons.IH)
qed

definition capacity_outside :: "string set \<Rightarrow> int \<Rightarrow> node_table \<Rightarrow> bool" where
  "capacity_outside S mc t \<longleftrightarrow>
     (\<forall>x n. map_of t x = Some n \<longrightarrow> x \<notin> S \<longrightarrow> int (length (children n)) \<le> mc)"

lemma rewire_capacity:
  assumes c: "capacity_outside S mc t"
    and b: "find_best_parent mc t fid unl None = Inr (Some b)"
  shows "capacity_outside S mc (rewire fid prereqs blocking b t)"
  unfolding capacity_outside_def
proof (intro allI impI)
  fix x n'
  assume m: "map_of (rewire fid prereqs blocking b t) x = Some n'" and x: "x \<notin> S"
  from rewire_grown [of b x t fid prereqs blocking] m
  obtain n where n: "map_of t x = Some n" and g: "grown b x n n'"
    by (cases "map_of t x") auto
  from find_best_parent_capacity [OF b]
  obtain cand where cand: "map_of t b = Some cand" "int (length (children cand)) < mc" by auto
  show "int (length (children n')) \<le> mc"
  proof (cases "x = b")
    case True
    with n cand have "int (length (children n)) < mc" by simp
    with g True show ?thesis by (simp add: grown_def)
  next
    case False
    from c n x have "int (length (children n)) \<le> mc" by (auto simp add: capacity_outside_def)
    with g False show ?thesis by (simp add: grown_def)
  qed
qed

lemma attach_to_root_capacity:
  assumes c: "capacity_outside S mc t" and r: "root_id \<in> S"
    and m: "map_of t fid = Some node" and f: "fid \<noteq> root_id"
  shows "capacity_outside S mc (attach_to_root root_id fid t)"
  unfolding capacity_outside_def
proof (intro allI impI)
  fix x n'
  assume m': "map_of (attach_to_root root_id fid t) x = Some n'" and x: "x \<notin> S"
  from attach_to_root_grown [OF m f, of x] m'
  obtain n where n: "map_of t x = Some n" and g: "grown root_id x n n'"
    by (cases "map_of t x") auto
  from x r have "x \<noteq> root_id" by auto
  moreover from c n x have "int (length (children n)) \<le> mc" by (auto simp add: capacity_outside_def)
  ultimately show "int (length (children n')) \<le> mc" using g by (simp add: grown_def)
qed

lemma fix_unreachable_capacity:
  assumes f: "fix_unreachable mc unl us t fa = Inr (t', fa')"
    and c: "capacity_outside S mc t"
  shows "capacity_outside S mc t'"
proof (rule fix_unreachable_preserves [OF f, where P = "capacity_outside S mc" and S = "set us"])
  show "capacity_outside S mc t" by (rule c)
  show "set us \<subseteq> set us" by simp
next
  fix ta :: node_table and fid node b
  assume "capacity_outside S mc ta" and "find_best_parent mc ta fid unl None = Inr (Some b)"
  then show "capacity_outside S mc
     (rewire fid (prerequisites node) (filter (\<lambda>p. p \<notin> set unl) (prerequisites node)) b ta)"
    by (rule rewire_capacity)
qed

lemma aggressive_fix_capacity:
  assumes a: "aggressive_fix root_id us t = Inr t'"
    and c: "capacity_outside S mc t" and r: "root_id \<in> S"
  shows "capacity_outside S mc t'"
proof -
  from a have e: "t' = fold (attach_to_root root_id) us t"
    by (auto simp add: aggressive_fix_def split: option.splits)
  have "capacity_outside S mc (fold (attach_to_root root_id) us t)"
  proof (rule aggressive_fold_preserves [where P = "capacity_outside S mc" and S = "set us"])
    show "capacity_outside S mc t" by (rule c)
    show "set us \<subseteq> set us" by simp
  next
    fix ta :: node_table and fid node
    assume "capacity_outside S mc ta" and "fid \<noteq> root_id" and "map_of ta fid = Some node"
    then show "capacity_outside S mc (attach_to_root root_id fid ta)"
      using r by (intro attach_to_root_capacity)
  qed
  with e show ?thesis by simp
qed

lemma repair_passes_capacity:
  assumes p: "repair_passes k h mc root_id t = Inr t'"
    and c: "capacity_outside S mc t" and r: "root_id \<in> S"
  shows "capacity_outside S mc t'"
proof (rule repair_passes_preserves [OF p, where Q = "capacity_outside S mc"])
  show "capacity_outside S mc t" by (rule c)
next
  fix ta t1 :: node_table and fa
  assume "capacity_outside S mc ta"
    and "fix_unreachable mc (sort_key h (simulate_unlocks ta root_id))
         (filter (\<lambda>fid. fid \<notin> set (simulate_unlocks ta root_id)) (map fst ta)) ta False = Inr (t1, fa)"
  then show "capacity_outside S mc t1" by (rule fix_unreachable_capacity [rotated])
next
  fix ta t1 t2 :: node_table
  assume q: "capacity_outside S mc ta"
    and f: "fix_unreachable mc (sort_key h (simulate_unlocks ta root_id))
         (filter (\<lambda>fid. fid \<notin> set (simulate_unlocks ta root_id)) (map fst ta)) ta False = Inr (t1, False)"
    and a: "aggressive_fix root_id
             (filter (\<lambda>fid. fid \<notin> set (simulate_unlocks ta root_id)) (map fst ta)) t1 = Inr t2"
  from fix_unreachable_capacity [OF f q] have "capacity_outside S mc t1" .
  from aggressive_fix_capacity [OF a this r] show "capacity_outside S mc t2" .
qed

subsection \<open>Tables that need the repair\<close>

text \<open>
  \<open>X\<close> requires a spell that is not in the table and \<open>Y\<close> requires \<open>X\<close>: neither can be
  unlocked.
\<close>

definition stranded_table :: node_table where
  "stranded_table =
     [(''R'', mk_node ''Novice'' ''fire'' 0 [''A''] []),
      (''A'', mk_node ''Apprentice'' ''fire'' 1 [] [''R'']),
      (''X'', mk_node ''Apprentice'' ''frost'' 1 [''Y''] [''ghost'']),
      (''Y'', mk_node ''Adept'' ''frost'' 2 [] [''X''])]"

text \<open>\<open>U\<close> and \<open>V\<close> require each other.\<close>

definition cyclic_table :: node_table where
  "cyclic_table =
     [(''R'', mk_node ''Novice'' ''fire'' 0 [] []),
      (''U'', mk_node ''Apprentice'' ''fire'' 1 [''V''] [''V'']),
      (''V'', mk_node ''Apprentice'' ''frost'' 1 [''U''] [''U''])]"

text \<open>
  A root without children and \<open>n\<close> spells, each requiring one spell that is not in the
  table.
\<close>

definition blocked_node :: "nat \<Rightarrow> string \<times> TreeNode" where
  "blocked_node i = (replicate (Suc i) (CHR ''u''), mk_node ''Novice'' ''fire'' 1 [] [''ghost''])"

definition blocked_table :: "nat \<Rightarrow> node_table" where
  "blocked_table n = (''R'', mk_node ''Novice'' ''fire'' 0 [] []) # map blocked_node [0..<n]"

text \<open>A root and four spells without any prerequisite.\<close>

definition orphan_table :: node_table where
  "orphan_table =
     [(''R'', mk_node ''Novice'' ''fire'' 0 [] []),
      (''O1'', mk_node ''Novice'' ''fire'' 0 [] []),
      (''O2'', mk_node ''Novice'' ''fire'' 0 [] []),
      (''O3'', mk_node ''Novice'' ''fire'' 0 [] []),
      (''O4'', mk_node ''Novice'' ''fire'' 0 [] [])]"

definition still_locked :: "node_table \<Rightarrow> string \<Rightarrow> string list" where
  "still_locked t root_id = filter (\<lambda>k. k \<notin> set (simulate_unlocks t root_id)) (map fst t)"

text \<open>
  The pass limit of the repair, on a table that no build produces (a prerequisite outside
  the table).  With \<^verbatim>\<open>max_children_per_node = 1\<close>, a root and eleven spells that each require
  a spell outside the table, every one of the ten passes rewires exactly one node, the loop
  ends without reaching the aggressive fix, and the eleventh spell is still locked when
  \<^verbatim>\<open>_ensure_all_reachable\<close> returns.  With ten such spells all are unlocked.
\<close>

lemma pass_limit_outside_build:
  "map_sum id (\<lambda>t. still_locked t ''R'')
       (ensure_all_reachable (\<lambda>s. 0) 1 (blocked_table 11) ''R'') = Inr [''uuuuuuuuuuu'']
   \<and> map_sum id (\<lambda>t. still_locked t ''R'')
       (ensure_all_reachable (\<lambda>s. 0) 1 (blocked_table 10) ''R'') = Inr []"
  by code_simp

text \<open>
  Claim C2 at failing inputs, with \<^verbatim>\<open>max_children_per_node = 3\<close>.  In \<open>orphan_table\<close>
  no node has a child; no pass of \<^verbatim>\<open>_ensure_all_reachable\<close> can rewire a spell without
  prerequisites, so the aggressive fix hangs all four under the root, which ends with four
  children.  In \<open>crowded_table\<close> every node has at most three children; both convergence
  passes give the Expert \<open>E\<close> the Apprentice \<open>A\<close> as a second prerequisite, although \<open>A\<close>
  already has three children: \<open>A\<close> ends with four.
\<close>

theorem capacity_exceeded_counterexample:
  "over_capacity 3 orphan_table = []
   \<and> map_sum id child_counts (ensure_all_reachable (\<lambda>s. 0) 3 orphan_table ''R'')
     = Inr [(''R'', 4), (''O1'', 0), (''O2'', 0), (''O3'', 0), (''O4'', 0)]
   \<and> map_sum id (over_capacity 3) (ensure_all_reachable (\<lambda>s. 0) 3 orphan_table ''R'')
     = Inr [''R'']
   \<and> child_counts crowded_table
     = [(''R'', 1), (''A'', 3), (''B1'', 1), (''B2'', 0), (''B3'', 0), (''E'', 0)]
   \<and> child_counts (enforce_high_tier_convergence crowded_table ''R'')
     = [(''R'', 1), (''A'', 4), (''B1'', 1), (''B2'', 0), (''B3'', 0), (''E'', 0)]
   \<and> child_counts (fst (maybe_add_convergence 0 ''E'' crowded_available crowded_table ''R'' (\<lambda>i. 0)))
     = [(''R'', 1), (''A'', 4), (''B1'', 1), (''B2'', 0), (''B3'', 0), (''E'', 0)]"
  by code_simp

text \<open>
  Claim C2, for the reachability repair.  If no node other than the root has more than
  \<^verbatim>\<open>max_children_per_node\<close> children, then the same holds for the table that
  \<^verbatim>\<open>_ensure_all_reachable\<close> leaves, whatever it did, the attach-to-root fallback included:
  only the root can end above the bound.  The rewiring of one pass, which picks a parent
  with \<^verbatim>\<open>len(candidate.children) < max_children_per_node\<close>, keeps the bound for every
  node, the root included.
\<close>

theorem repair_keeps_capacity_below_root:
  assumes "set (over_capacity max_children t) \<subseteq> {root_id}"
  shows "(\<forall>t'. ensure_all_reachable set_order max_children t root_id = Inr t'
            \<longrightarrow> set (over_capacity max_children t') \<subseteq> {root_id})
         \<and> (\<forall>unlockable unreachable fixed_any t1 fixed_any1.
              over_capacity max_children t = []
              \<and> fix_unreachable max_children unlockable unreachable t fixed_any
                  = Inr (t1, fixed_any1)
              \<longrightarrow> over_capacity max_children t1 = [])"
proof (intro conjI allI impI)
  fix t'
  assume e: "ensure_all_reachable set_order max_children t root_id = Inr t'"
  from assms have "capacity_outside {root_id} max_children t"
    by (simp only: over_capacity_subset capacity_outside_def)
  with e have "capacity_outside {root_id} max_children t'"
    by (auto simp add: ensure_all_reachable_def intro: repair_passes_capacity)
  then show "set (over_capacity max_children t') \<subseteq> {root_id}"
    by (simp only: over_capacity_subset capacity_outside_def)
next
  fix unlockable unreachable fixed_any t1 fixed_any1
  assume h: "over_capacity max_children t = []
     \<and> fix_unreachable max_children unlockable unreachable t fixed_any = Inr (t1, fixed_any1)"
  then have "set (over_capacity max_children t) \<subseteq> {}" by simp
  then have "capacity_outside {} max_children t"
    by (simp only: over_capacity_subset capacity_outside_def)
  with h have "capacity_outside {} max_children t1"
    by (auto intro: fix_unreachable_capacity)
  then have "set (over_capacity max_children t1) \<subseteq> {}"
    by (simp only: over_capacity_subset capacity_outside_def)
  then show "over_capacity max_children t1 = []" by simp
qed

theorem repair_keeps_capacity_below_root_witness:
  "set (over_capacity 3 stranded_table) \<subseteq> {''R''}
   \<and> over_capacity 3 stranded_table = []
   \<and> map_sum id child_counts (ensure_all_reachable (\<lambda>s. 0) 3 stranded_table ''R'')
       = Inr [(''R'', 3), (''A'', 0), (''X'', 0), (''Y'', 0)]
   \<and> (\<exists>t'. ensure_all_reachable (\<lambda>s. 0) 3 stranded_table ''R'' = Inr t'
          \<and> set (over_capacity 3 t') \<subseteq> {''R''})
   \<and> (\<exists>t1. fix_unreachable 3 [''R'', ''A''] [''X'', ''Y''] stranded_table False = Inr (t1, True)
          \<and> over_capacity 3 t1 = [])"
proof -
  have o: "over_capacity 3 stranded_table = []" by code_simp
  have c: "map_sum id child_counts (ensure_all_reachable (\<lambda>s. 0) 3 stranded_table ''R'')
       = Inr [(''R'', 3), (''A'', 0), (''X'', 0), (''Y'', 0)]" by code_simp
  then obtain t' where t': "ensure_all_reachable (\<lambda>s. 0) 3 stranded_table ''R'' = Inr t'"
    by (cases "ensure_all_reachable (\<lambda>s. 0) 3 stranded_table ''R''") auto
  have "map_sum id snd (fix_unreachable 3 [''R'', ''A''] [''X'', ''Y''] stranded_table False)
       = Inr True" by code_simp
  then obtain t1 where
    t1: "fix_unreachable 3 [''R'', ''A''] [''X'', ''Y''] stranded_table False = Inr (t1, True)"
    by (cases "fix_unreachable 3 [''R'', ''A''] [''X'', ''Y''] stranded_table False") auto
  have s: "set (over_capacity 3 stranded_table) \<subseteq> {''R''}" using o by simp
  note r = repair_keeps_capacity_below_root [OF s, of "\<lambda>s. 0"]
  from r t' have a: "set (over_capacity 3 t') \<subseteq> {''R''}" by blast
  from r o t1 have b: "over_capacity 3 t1 = []" by blast
  from s o c t' t1 a b show ?thesis by blast
qed

text \<open>
  Claim C4.  If, for all nodes \<open>X\<close> and \<open>Y\<close> of the table, \<open>Y\<close> is in \<open>X.children\<close>
  exactly when \<open>X\<close> is in \<open>Y.prerequisites\<close> (and no children list repeats an id), then
  the same holds after every operation that changes links: \<^verbatim>\<open>link_nodes\<close> (initial
  linking and orphan attachment), \<^verbatim>\<open>_maybe_add_convergence\<close>,
  \<^verbatim>\<open>_enforce_high_tier_convergence\<close> and \<^verbatim>\<open>_ensure_all_reachable\<close> with its edge removals,
  replacements and the attach-to-root fallback.
\<close>

theorem links_stay_bidirectional:
  assumes "bidirectional t" and "children_distinct t"
  shows "bidirectional (link_nodes parent_id child_id t)
         \<and> children_distinct (link_nodes parent_id child_id t)
         \<and> bidirectional (fst (maybe_add_convergence chance node_id available t root_id g))
         \<and> children_distinct (fst (maybe_add_convergence chance node_id available t root_id g))
         \<and> bidirectional (enforce_high_tier_convergence t root_id)
         \<and> children_distinct (enforce_high_tier_convergence t root_id)
         \<and> (\<forall>t'. ensure_all_reachable set_order max_children t root_id = Inr t'
                \<longrightarrow> bidirectional t' \<and> children_distinct t')"
proof -
  from assms have l: "linked t" by (simp add: linked_def)
  have "linked (link_nodes parent_id child_id t)" using l by (rule link_nodes_linked)
  moreover have "linked (fst (maybe_add_convergence chance node_id available t root_id g))"
    using l by (rule maybe_add_convergence_linked)
  moreover have "linked (enforce_high_tier_convergence t root_id)"
    using l by (rule enforce_high_tier_convergence_linked)
  moreover have "\<forall>t'. ensure_all_reachable set_order max_children t root_id = Inr t'
                \<longrightarrow> linked t'"
    using l by (auto intro: ensure_all_reachable_linked)
  ultimately show ?thesis by (simp add: linked_def)
qed

theorem links_stay_bidirectional_witness:
  "bidirectional cyclic_table \<and> children_distinct cyclic_table
   \<and> map_sum id prereqs_of (ensure_all_reachable (\<lambda>s. 0) 3 cyclic_table ''R'')
       = Inr [(''R'', []), (''U'', [''R'']), (''V'', [''R''])]
   \<and> map_sum id bidirectional (ensure_all_reachable (\<lambda>s. 0) 3 cyclic_table ''R'') = Inr True
   \<and> bidirectional (link_nodes ''R'' ''U'' cyclic_table)
   \<and> bidirectional (enforce_high_tier_convergence cyclic_table ''R'')
   \<and> bidirectional (fst (maybe_add_convergence 1 ''U'' [(0, [''R''])] cyclic_table ''R'' (\<lambda>i. 0)))"
proof -
  have b: "bidirectional cyclic_table" by code_simp
  have d: "children_distinct cyclic_table" by code_simp
  obtain t' where t': "ensure_all_reachable (\<lambda>s. 0) 3 cyclic_table ''R'' = Inr t'"
    "prereqs_of t' = [(''R'', []), (''U'', [''R'']), (''V'', [''R''])]"
  proof -
    have "map_sum id prereqs_of (ensure_all_reachable (\<lambda>s. 0) 3 cyclic_table ''R'')
       = Inr [(''R'', []), (''U'', [''R'']), (''V'', [''R''])]" by code_simp
    then show ?thesis
      by (cases "ensure_all_reachable (\<lambda>s. 0) 3 cyclic_table ''R''") (auto intro: that)
  qed
  from links_stay_bidirectional [OF b d, of "''R''" "''U''" 1 "''U''" "[(0, [''R''])]" "''R''"
      "\<lambda>i. 0" "\<lambda>s. 0" 3] t' b d
  show ?thesis by simp
qed

text \<open>
  Claim C3.  From an acyclic prerequisite graph with bidirectional links, every operation
  that adds an edge yields an acyclic graph again: \<^verbatim>\<open>_maybe_add_convergence\<close> and
  \<^verbatim>\<open>_enforce_high_tier_convergence\<close> (which refuse every candidate that
  \<^verbatim>\<open>_is_descendant\<close> finds below the node), \<^verbatim>\<open>link_nodes\<close> on a child that has no children
  yet and is not its own parent, and, for a table with distinct keys whose root has no
  prerequisites, \<^verbatim>\<open>_ensure_all_reachable\<close>, which returns and only puts unlockable ids
  into the prerequisites of nodes that are not unlockable; so does the repair run after
  the enforcement pass, as the builder does.
\<close>

theorem prerequisites_stay_acyclic:
  assumes "prereq_acyclic t" and "bidirectional t"
  shows "prereq_acyclic (fst (maybe_add_convergence chance node_id available t root_id g))
         \<and> prereq_acyclic (enforce_high_tier_convergence t root_id)
         \<and> (\<forall>cn. map_of t child_id = Some cn \<and> children cn = [] \<and> parent_id \<noteq> child_id
                \<longrightarrow> prereq_acyclic (link_nodes parent_id child_id t))
         \<and> (distinct (map fst t) \<and> root_free t root_id \<longrightarrow>
              (\<exists>t'. ensure_all_reachable set_order max_children t root_id = Inr t'
                    \<and> prereq_acyclic t')
              \<and> (\<exists>t'. ensure_all_reachable set_order max_children
                         (enforce_high_tier_convergence t root_id) root_id = Inr t'
                    \<and> prereq_acyclic t'))"
proof (intro conjI allI impI)
  from assms have inv: "tree_inv t" by (simp add: tree_inv_def prereq_acyclic_def)
  from maybe_add_convergence_inv [OF inv]
  show "prereq_acyclic (fst (maybe_add_convergence chance node_id available t root_id g))"
    by (simp add: tree_inv_def prereq_acyclic_def)
  from enforce_high_tier_convergence_inv [OF inv]
  show "prereq_acyclic (enforce_high_tier_convergence t root_id)"
    by (simp add: tree_inv_def prereq_acyclic_def)
  {
    fix cn assume "map_of t child_id = Some cn \<and> children cn = [] \<and> parent_id \<noteq> child_id"
    with assms show "prereq_acyclic (link_nodes parent_id child_id t)"
      by (auto simp add: prereq_acyclic_def intro: link_nodes_acyclic)
  }
  {
    fix u :: node_table
    assume q: "repair_inv root_id u"
    then have "root_id \<in> fst ` set u"
      by (cases "map_of u root_id")
         (auto simp add: repair_inv_def root_free_def dest!: map_of_SomeD intro: rev_image_eqI)
    from repair_passes_total [OF this, of 10 set_order max_children]
    obtain t' where t': "repair_passes 10 set_order max_children root_id u = Inr t'" by blast
    from repair_passes_inv [OF t' q] t'
    have "\<exists>t'. ensure_all_reachable set_order max_children u root_id = Inr t' \<and> prereq_acyclic t'"
      by (auto simp add: ensure_all_reachable_def repair_inv_def prereq_acyclic_def)
  }
  note repair = this
  {
    assume h: "distinct (map fst t) \<and> root_free t root_id"
    with assms have q: "repair_inv root_id t" by (simp add: repair_inv_def prereq_acyclic_def)
    from repair [OF q]
    show "\<exists>t'. ensure_all_reachable set_order max_children t root_id = Inr t' \<and> prereq_acyclic t'" .
    have "distinct (map fst (enforce_high_tier_convergence t root_id))"
      using h by (simp add: enforce_high_tier_convergence_def Let_def)
    moreover have "root_free (enforce_high_tier_convergence t root_id) root_id"
      using h by (simp add: enforce_high_tier_convergence_root_free)
    moreover have "acyclic (prereq_rel (enforce_high_tier_convergence t root_id))"
      using enforce_high_tier_convergence_inv [OF inv] by (simp add: tree_inv_def)
    ultimately have "repair_inv root_id (enforce_high_tier_convergence t root_id)"
      by (simp add: repair_inv_def)
    from repair [OF this]
    show "\<exists>t'. ensure_all_reachable set_order max_children
                 (enforce_high_tier_convergence t root_id) root_id = Inr t' \<and> prereq_acyclic t'" .
  }
qed

lemma stranded_acyclic: "prereq_acyclic stranded_table"
proof -
  have "acyclic (prereq_rel stranded_table)"
  proof (rule acyclicI_order [where f = "\<lambda>x. if x = ''ghost'' then (3::nat) else
        if x = ''R'' then 3 else if x = ''A'' then 2 else if x = ''X'' then 2 else
        if x = ''Y'' then 1 else 0"])
    fix a b assume "(a, b) \<in> prereq_rel stranded_table"
    then have "(a, b) \<in> {(''R'', ''A''), (''ghost'', ''X''), (''X'', ''Y'')}"
      by (auto simp add: prereq_rel_def stranded_table_def mk_node_def split: if_splits)
    then show "(if b = ''ghost'' then (3::nat) else
        if b = ''R'' then 3 else if b = ''A'' then 2 else if b = ''X'' then 2 else
        if b = ''Y'' then 1 else 0) < (if a = ''ghost'' then (3::nat) else
        if a = ''R'' then 3 else if a = ''A'' then 2 else if a = ''X'' then 2 else
        if a = ''Y'' then 1 else 0)" by auto
  qed
  then show ?thesis by (simp add: prereq_acyclic_def)
qed

theorem prerequisites_stay_acyclic_witness:
  "prereq_acyclic stranded_table \<and> bidirectional stranded_table
   \<and> distinct (map fst stranded_table) \<and> root_free stranded_table ''R''
   \<and> map_sum id prereqs_of (ensure_all_reachable (\<lambda>s. 0) 3 stranded_table ''R'')
       = Inr [(''R'', []), (''A'', [''R'']), (''X'', [''R'']), (''Y'', [''R''])]
   \<and> (\<exists>t'. ensure_all_reachable (\<lambda>s. 0) 3 stranded_table ''R'' = Inr t' \<and> prereq_acyclic t')
   \<and> prereq_acyclic crowded_table \<and> bidirectional crowded_table
   \<and> prereqs_of (enforce_high_tier_convergence crowded_table ''R'')
       = [(''R'', []), (''A'', [''R'']), (''B1'', [''A'']), (''B2'', [''A'']), (''B3'', [''A'']),
          (''E'', [''B1'', ''A''])]
   \<and> prereq_acyclic (enforce_high_tier_convergence crowded_table ''R'')
   \<and> prereq_acyclic (fst (maybe_add_convergence 0 ''E'' crowded_available crowded_table ''R'' (\<lambda>i. 0)))
   \<and> prereq_acyclic (link_nodes ''B2'' ''E'' crowded_table)"
proof -
  have b: "bidirectional stranded_table" by code_simp
  have d: "distinct (map fst stranded_table)" by code_simp
  have f: "root_free stranded_table ''R''" by code_simp
  have e: "map_sum id prereqs_of (ensure_all_reachable (\<lambda>s. 0) 3 stranded_table ''R'')
       = Inr [(''R'', []), (''A'', [''R'']), (''X'', [''R'']), (''Y'', [''R''])]" by code_simp
  have p: "prereqs_of (enforce_high_tier_convergence crowded_table ''R'')
       = [(''R'', []), (''A'', [''R'']), (''B1'', [''A'']), (''B2'', [''A'']), (''B3'', [''A'']),
          (''E'', [''B1'', ''A''])]" by code_simp
  have c: "map_of crowded_table ''E'' = Some (mk_node ''Expert'' ''fire'' 3 [] [''B1''])"
    "children (mk_node ''Expert'' ''fire'' 3 [] [''B1'']) = []" "''B2'' \<noteq> ''E''"
    by (simp_all add: crowded_table_def mk_node_def)
  from prerequisites_stay_acyclic [OF stranded_acyclic b, of 0 "''X''" "[]" "''R''" "\<lambda>i. 0"
      "''Y''" "''A''" "\<lambda>s. 0" 3]
    prerequisites_stay_acyclic [OF crowded_acyclic crowded_bidirectional, of 0 "''E''"
      crowded_available "''R''" "\<lambda>i. 0" "''E''" "''B2''" "\<lambda>s. 0" 3]
    stranded_acyclic b d f e p c crowded_acyclic crowded_bidirectional
  show ?thesis by simp
qed

subsection \<open>The unlock simulation reaches its fixed point\<close>

lemma unlock_sweep_flag:
  "unlock_sweep es u ch = (u', ch') \<Longrightarrow> (u' = u \<and> ch' = ch) \<or> (ch' \<and> set u \<subset> set u')"
proof (induction es arbitrary: u ch)
  case Nil
  then show ?case by simp
next
  case (Cons e es)
  obtain fid node where e: "e = (fid, node)" by (cases e)
  have "unlock_sweep es u ch = (u', ch')
        \<or> (fid \<notin> set u \<and> unlock_sweep es (u @ [fid]) True = (u', ch'))"
    using Cons.prems unfolding e
    by (cases "fid \<in> set u"; cases "prerequisites node = []";
        cases "\<forall>p \<in> set (prerequisites node). p \<in> set u") simp_all
  then show ?case
  proof
    assume "unlock_sweep es u ch = (u', ch')"
    then show ?thesis by (rule Cons.IH)
  next
    assume "fid \<notin> set u \<and> unlock_sweep es (u @ [fid]) True = (u', ch')"
    then have add: "fid \<notin> set u" "unlock_sweep es (u @ [fid]) True = (u', ch')" by simp_all
    have s1: "set u \<subset> set (u @ [fid])" using add(1) by (intro psubsetI) auto
    from Cons.IH [OF add(2)]
    have "(u' = u @ [fid] \<and> ch') \<or> (ch' \<and> set (u @ [fid]) \<subset> set u')" by simp
    then show ?thesis
    proof
      assume "u' = u @ [fid] \<and> ch'"
      with s1 show ?thesis by simp
    next
      assume c: "ch' \<and> set (u @ [fid]) \<subset> set u'"
      then have "set (u @ [fid]) \<subset> set u'" ..
      with s1 have "set u \<subset> set u'" by (rule psubset_trans)
      with c show ?thesis by simp
    qed
  qed
qed

lemma unlock_sweep_stable:
  "unlock_sweep es u ch = (u', False) \<Longrightarrow>
   u' = u \<and> (\<forall>e \<in> set es. fst e \<in> set u \<or> prerequisites (snd e) = []
                \<or> \<not> set (prerequisites (snd e)) \<subseteq> set u)"
proof (induction es arbitrary: u ch)
  case Nil
  then show ?case by simp
next
  case (Cons e es)
  obtain fid node where e: "e = (fid, node)" by (cases e)
  have "(unlock_sweep es u ch = (u', False)
          \<and> (fid \<in> set u \<or> prerequisites node = [] \<or> \<not> set (prerequisites node) \<subseteq> set u))
        \<or> unlock_sweep es (u @ [fid]) True = (u', False)"
    using Cons.prems unfolding e
    by (cases "fid \<in> set u"; cases "prerequisites node = []";
        cases "\<forall>p \<in> set (prerequisites node). p \<in> set u") (auto simp add: subset_iff)
  then show ?case
  proof
    assume "unlock_sweep es u ch = (u', False)
          \<and> (fid \<in> set u \<or> prerequisites node = [] \<or> \<not> set (prerequisites node) \<subseteq> set u)"
    then have skip: "unlock_sweep es u ch = (u', False)"
      "fid \<in> set u \<or> prerequisites node = [] \<or> \<not> set (prerequisites node) \<subseteq> set u"
      by simp_all
    from Cons.IH [OF skip(1)] skip(2) show ?thesis unfolding e by simp
  next
    assume add: "unlock_sweep es (u @ [fid]) True = (u', False)"
    from unlock_sweep_flag [OF add] show ?thesis by simp
  qed
qed

lemma unlock_loop_complete:
  assumes "finite K" and "fst ` set t \<subseteq> K"
  shows "set u \<subseteq> K \<Longrightarrow> card (K - set u) < k \<Longrightarrow>
         \<forall>e \<in> set t. fst e \<in> set (unlock_loop k t u) \<or> prerequisites (snd e) = []
                \<or> \<not> set (prerequisites (snd e)) \<subseteq> set (unlock_loop k t u)"
proof (induction k arbitrary: u)
  case 0
  then show ?case by simp
next
  case (Suc k)
  obtain u' ch where s: "unlock_sweep t u False = (u', ch)" by (cases "unlock_sweep t u False")
  show ?case
  proof (cases ch)
    case False
    with s unlock_sweep_stable [of t u False u'] show ?thesis by simp
  next
    case True
    with unlock_sweep_flag [OF s] have g: "set u \<subset> set u'" by simp
    from unlock_sweep_keys [OF s] Suc.prems(1) assms(2) have k: "set u' \<subseteq> K" by auto
    from g k have "K - set u' \<subset> K - set u" by auto
    with assms(1) have "card (K - set u') < card (K - set u)"
      by (intro psubset_card_mono) auto
    with Suc.prems(2) have "card (K - set u') < k" by simp
    from Suc.IH [OF k this] s True show ?thesis by simp
  qed
qed

lemma simulate_unlocks_complete:
  assumes "(x, n) \<in> set t" and "prerequisites n \<noteq> []"
    and "set (prerequisites n) \<subseteq> set (simulate_unlocks t root_id)"
  shows "x \<in> set (simulate_unlocks t root_id)"
proof -
  define K where "K = insert root_id (fst ` set t)"
  have f: "finite K" by (simp add: K_def)
  have "K - set [root_id] \<subseteq> fst ` set t" by (auto simp add: K_def)
  then have "card (K - set [root_id]) \<le> card (fst ` set t)" by (intro card_mono) auto
  also have "\<dots> \<le> length t" using card_length [of "map fst t"] by simp
  finally have c: "card (K - set [root_id]) < length t + 10" by simp
  have "\<forall>e \<in> set t. fst e \<in> set (unlock_loop (length t + 10) t [root_id])
          \<or> prerequisites (snd e) = []
          \<or> \<not> set (prerequisites (snd e)) \<subseteq> set (unlock_loop (length t + 10) t [root_id])"
    by (rule unlock_loop_complete [OF f _ _ c]) (auto simp add: K_def)
  from bspec [OF this assms(1)] assms(2,3) show ?thesis by (simp add: simulate_unlocks_def)
qed

lemma unlock_sweep_nonempty:
  "unlock_sweep es u ch = (u', ch') \<Longrightarrow>
   \<forall>x \<in> set u'. x \<in> set u \<or> (\<exists>n. (x, n) \<in> set es \<and> prerequisites n \<noteq> [])"
proof (induction es arbitrary: u ch)
  case Nil
  then show ?case by simp
next
  case (Cons e es)
  obtain fid node where e: "e = (fid, node)" by (cases e)
  have "unlock_sweep es u ch = (u', ch')
        \<or> (prerequisites node \<noteq> [] \<and> unlock_sweep es (u @ [fid]) True = (u', ch'))"
    using Cons.prems unfolding e
    by (cases "fid \<in> set u"; cases "prerequisites node = []";
        cases "\<forall>p \<in> set (prerequisites node). p \<in> set u") simp_all
  then show ?case
  proof
    assume skip: "unlock_sweep es u ch = (u', ch')"
    from Cons.IH [OF skip] show ?thesis by auto
  next
    assume "prerequisites node \<noteq> [] \<and> unlock_sweep es (u @ [fid]) True = (u', ch')"
    then have add: "prerequisites node \<noteq> []" "unlock_sweep es (u @ [fid]) True = (u', ch')"
      by simp_all
    from Cons.IH [OF add(2)] add(1) show ?thesis unfolding e by auto
  qed
qed

lemma unlock_loop_nonempty:
  "\<forall>x \<in> set (unlock_loop k t u). x \<in> set u \<or> (\<exists>n. (x, n) \<in> set t \<and> prerequisites n \<noteq> [])"
proof (induction k arbitrary: u)
  case 0
  then show ?case by simp
next
  case (Suc k)
  obtain u' ch where s: "unlock_sweep t u False = (u', ch)" by (cases "unlock_sweep t u False")
  from unlock_sweep_nonempty [OF s] Suc [of u'] s show ?case
    by (cases ch) (simp, blast, simp)
qed

lemma simulate_unlocks_nonempty:
  assumes "x \<in> set (simulate_unlocks t root_id)" and "x \<noteq> root_id"
  shows "\<exists>n. (x, n) \<in> set t \<and> prerequisites n \<noteq> []"
  using unlock_loop_nonempty [of "length t + 10" t "[root_id]"] assms
  by (auto simp add: simulate_unlocks_def)

subsection \<open>The tables of a build\<close>

text \<open>
  The builder's set \<^verbatim>\<open>connected\<close>, read off the table: the root and every node that has
  been linked under a parent, which has a prerequisite since then.
\<close>

definition is_connected :: "string \<Rightarrow> node_table \<Rightarrow> string \<Rightarrow> bool" where
  "is_connected root_id t k \<longleftrightarrow>
     (case map_of t k of None \<Rightarrow> False | Some n \<Rightarrow> k = root_id \<or> prerequisites n \<noteq> [])"

definition prereqs_connected :: "string \<Rightarrow> node_table \<Rightarrow> bool" where
  "prereqs_connected root_id t \<longleftrightarrow>
     (\<forall>e \<in> set t. \<forall>p \<in> set (prerequisites (snd e)). is_connected root_id t p)"

definition children_known :: "node_table \<Rightarrow> bool" where
  "children_known t \<longleftrightarrow> (\<forall>e \<in> set t. set (children (snd e)) \<subseteq> set (map fst t))"

definition build_inv :: "string \<Rightarrow> node_table \<Rightarrow> bool" where
  "build_inv root_id t \<longleftrightarrow>
     distinct (map fst t) \<and> root_free t root_id \<and> bidirectional t
     \<and> acyclic (prereq_rel t) \<and> prereqs_connected root_id t \<and> children_known t"

lemma finite_prereq_rel: "finite (prereq_rel t)"
proof -
  have "prereq_rel t \<subseteq> (\<Union>e \<in> set t. set (prerequisites (snd e))) \<times> fst ` set t"
    by (auto simp add: prereq_rel_def dest!: map_of_SomeD intro: rev_image_eqI rev_bexI)
  moreover have "finite ((\<Union>e \<in> set t. set (prerequisites (snd e))) \<times> fst ` set t)" by simp
  ultimately show ?thesis by (rule finite_subset)
qed

lemma connected_unlocked:
  assumes d: "distinct (map fst t)" and a: "acyclic (prereq_rel t)"
    and w: "prereqs_connected root_id t"
  shows "is_connected root_id t k \<Longrightarrow> k \<in> set (simulate_unlocks t root_id)"
proof -
  have wf: "wf (prereq_rel t)" using finite_prereq_rel a by (rule finite_acyclic_wf)
  show "is_connected root_id t k \<Longrightarrow> k \<in> set (simulate_unlocks t root_id)"
    using wf
  proof (induction k rule: wf_induct_rule)
    case (less k)
    show ?case
    proof (cases "k = root_id")
      case True
      then show ?thesis by (simp add: simulate_unlocks_root)
    next
      case False
      with less.prems obtain n where n: "map_of t k = Some n" "prerequisites n \<noteq> []"
        by (auto simp add: is_connected_def split: option.splits)
      then have e: "(k, n) \<in> set t" by (auto dest: map_of_SomeD)
      have "set (prerequisites n) \<subseteq> set (simulate_unlocks t root_id)"
      proof
        fix p assume p: "p \<in> set (prerequisites n)"
        with n(1) have r: "(p, k) \<in> prereq_rel t" by (auto simp add: prereq_rel_def)
        from w e p have "is_connected root_id t p" unfolding prereqs_connected_def by force
        with less.IH [OF r] show "p \<in> set (simulate_unlocks t root_id)" .
      qed
      with e n(2) show ?thesis by (rule simulate_unlocks_complete)
    qed
  qed
qed

lemma unlocked_connected:
  assumes d: "distinct (map fst t)" and r: "root_free t root_id"
    and k: "k \<in> set (simulate_unlocks t root_id)"
  shows "is_connected root_id t k"
proof (cases "k = root_id")
  case True
  with r show ?thesis by (auto simp add: is_connected_def root_free_def split: option.splits)
next
  case False
  from simulate_unlocks_nonempty [OF k False]
  obtain n where "(k, n) \<in> set t" "prerequisites n \<noteq> []" by blast
  with d have "map_of t k = Some n" "prerequisites n \<noteq> []" by (auto intro: map_of_is_SomeI)
  then show ?thesis by (simp add: is_connected_def)
qed

text \<open>A node without prerequisites has no blocking prerequisite: the pass leaves it.\<close>

lemma fix_unreachable_idle:
  "\<forall>fid \<in> set us. \<exists>n. map_of t fid = Some n \<and> prerequisites n = [] \<Longrightarrow>
   fix_unreachable mc unl us t fa = Inr (t, fa)"
  by (induction us) (auto simp add: Let_def)

lemma fold_attach_prereqs:
  "\<forall>fid \<in> set us. fid \<noteq> root_id \<and> fid \<in> fst ` set t \<Longrightarrow>
   rel_option (\<lambda>n n'. prerequisites n' = (if x \<in> set us then [root_id] else prerequisites n))
     (map_of t x) (map_of (fold (attach_to_root root_id) us t) x)"
proof (induction us arbitrary: t)
  case Nil
  then show ?case by (cases "map_of t x") simp_all
next
  case (Cons fid us)
  define t1 where "t1 = attach_to_root root_id fid t"
  from Cons.prems have ne: "fid \<noteq> root_id" and key: "fid \<in> fst ` set t" by simp_all
  from key obtain node where node: "map_of t fid = Some node"
    by (cases "map_of t fid") (auto simp add: map_of_eq_None_iff)
  have s: "rel_option (reparented fid [root_id] x) (map_of t x) (map_of t1 x)"
    unfolding t1_def using node ne by (rule attach_to_root_reparented)
  have "fst ` set t1 = fst ` set t"
    using attach_to_root_keys [of root_id fid t] unfolding t1_def
    by (metis set_map)
  with Cons.prems have "\<forall>f \<in> set us. f \<noteq> root_id \<and> f \<in> fst ` set t1" by simp
  from Cons.IH [OF this]
  have i: "rel_option (\<lambda>n n'. prerequisites n' = (if x \<in> set us then [root_id] else prerequisites n))
     (map_of t1 x) (map_of (fold (attach_to_root root_id) us t1) x)" .
  show ?case
  proof (cases "map_of t x")
    case None
    with s have "map_of t1 x = None" by (cases "map_of t1 x") simp_all
    with i None show ?thesis
      by (cases "map_of (fold (attach_to_root root_id) us t1) x") (simp_all add: t1_def)
  next
    case (Some n)
    with s obtain n1 where n1: "map_of t1 x = Some n1" "reparented fid [root_id] x n n1"
      by (cases "map_of t1 x") simp_all
    with i obtain n2 where n2: "map_of (fold (attach_to_root root_id) us t1) x = Some n2"
      "prerequisites n2 = (if x \<in> set us then [root_id] else prerequisites n1)"
      by (cases "map_of (fold (attach_to_root root_id) us t1) x") simp_all
    from n1(2) n2(2) have "prerequisites n2 = (if x \<in> set (fid # us) then [root_id] else prerequisites n)"
      by (auto simp add: reparented_def)
    with Some n2(1) show ?thesis by (simp add: t1_def)
  qed
qed

lemma still_locked_empty:
  assumes d: "distinct (map fst t)" and a: "acyclic (prereq_rel t)"
    and w: "prereqs_connected root_id t"
    and c: "\<forall>k \<in> set (map fst t). is_connected root_id t k"
  shows "still_locked t root_id = []"
proof -
  have "\<forall>k \<in> set (map fst t). k \<in> set (simulate_unlocks t root_id)"
    using c connected_unlocked [OF d a w] by blast
  then show ?thesis by (simp add: still_locked_def filter_empty_conv)
qed

text \<open>
  On a table of the build the repair has at most one thing to do: the nodes that were never
  linked have no prerequisite to replace, so the first pass fixes nothing and the
  aggressive fix hangs them under the root.
\<close>

lemma repair_on_build:
  assumes inv: "build_inv root_id t"
  shows "\<exists>t'. ensure_all_reachable set_order max_children t root_id = Inr t'
              \<and> still_locked t' root_id = [] \<and> map fst t' = map fst t"
proof -
  from inv have d: "distinct (map fst t)" and rf: "root_free t root_id"
    and a: "acyclic (prereq_rel t)" and w: "prereqs_connected root_id t"
    by (simp_all add: build_inv_def)
  define U where "U = simulate_unlocks t root_id"
  define us where "us = filter (\<lambda>fid. fid \<notin> set U) (map fst t)"
  from rf obtain rn where rn: "map_of t root_id = Some rn"
    by (cases "map_of t root_id") (simp_all add: root_free_def)
  have orphan: "\<exists>n. map_of t fid = Some n \<and> prerequisites n = []" if "fid \<in> set us" for fid
  proof -
    from that have k: "fid \<in> fst ` set t" and nu: "fid \<notin> set U" by (simp_all add: us_def)
    from k obtain n where n: "map_of t fid = Some n"
      by (cases "map_of t fid") (auto simp add: map_of_eq_None_iff)
    have "prerequisites n = []"
    proof (rule ccontr)
      assume "prerequisites n \<noteq> []"
      with n have "is_connected root_id t fid" by (simp add: is_connected_def)
      from connected_unlocked [OF d a w this] nu show False by (simp add: U_def)
    qed
    with n show ?thesis by simp
  qed
  then have idle: "fix_unreachable max_children (sort_key set_order U) us t False = Inr (t, False)"
    by (intro fix_unreachable_idle) blast
  have e: "ensure_all_reachable set_order max_children t root_id
           = (if us = [] then Inr t else aggressive_fix root_id us t)"
    unfolding ensure_all_reachable_def eval_nat_numeral repair_passes.simps Let_def
    using idle by (simp add: us_def U_def)
  show ?thesis
  proof (cases "us = []")
    case True
    then have "still_locked t root_id = []" by (simp add: still_locked_def us_def U_def)
    with e True show ?thesis by simp
  next
    case False
    define t' where "t' = fold (attach_to_root root_id) us t"
    from e False rn have r: "ensure_all_reachable set_order max_children t root_id = Inr t'"
      by (simp add: aggressive_fix_def t'_def)
    have q: "repair_inv root_id t" using d rf a by (simp add: repair_inv_def)
    from repair_passes_inv [OF r [unfolded ensure_all_reachable_def] q]
    have d': "distinct (map fst t')" and a': "acyclic (prereq_rel t')"
      by (simp_all add: repair_inv_def)
    have keys: "map fst t' = map fst t"
    proof -
      have "map fst (fold (attach_to_root root_id) xs u) = map fst u" for xs u
        by (induction xs arbitrary: u) simp_all
      then show ?thesis by (simp add: t'_def)
    qed
    have ru: "root_id \<in> set U" by (simp add: U_def simulate_unlocks_root)
    have us_ok: "\<forall>fid \<in> set us. fid \<noteq> root_id \<and> fid \<in> fst ` set t"
      using ru by (auto simp add: us_def)
    have look: "rel_option (\<lambda>n n'. prerequisites n' = (if x \<in> set us then [root_id] else prerequisites n))
               (map_of t x) (map_of t' x)" for x
      unfolding t'_def using us_ok by (rule fold_attach_prereqs)
    have con: "is_connected root_id t' x" if "is_connected root_id t x \<or> x \<in> set us" for x
    proof -
      from that us_ok obtain n where n: "map_of t x = Some n"
        by (cases "map_of t x") (auto simp add: is_connected_def map_of_eq_None_iff)
      with look [of x] obtain n' where n': "map_of t' x = Some n'"
        "prerequisites n' = (if x \<in> set us then [root_id] else prerequisites n)"
        by (cases "map_of t' x") simp_all
      from that n n' show ?thesis by (auto simp add: is_connected_def)
    qed
    have w': "prereqs_connected root_id t'"
      unfolding prereqs_connected_def
    proof (intro ballI)
      fix e p assume e: "e \<in> set t'" and p: "p \<in> set (prerequisites (snd e))"
      from e d' have m': "map_of t' (fst e) = Some (snd e)" by (cases e) (auto intro: map_of_is_SomeI)
      with look [of "fst e"] obtain n where n: "map_of t (fst e) = Some n"
        "prerequisites (snd e) = (if fst e \<in> set us then [root_id] else prerequisites n)"
        by (cases "map_of t (fst e)") simp_all
      show "is_connected root_id t' p"
      proof (cases "fst e \<in> set us")
        case True
        with n(2) p have "p = root_id" by simp
        moreover have "is_connected root_id t root_id" using rn by (simp add: is_connected_def)
        ultimately show ?thesis using con by blast
      next
        case False
        with n(2) p have "p \<in> set (prerequisites n)" by simp
        moreover from n(1) have "(fst e, n) \<in> set t" by (rule map_of_SomeD)
        ultimately have "is_connected root_id t p" using w unfolding prereqs_connected_def by force
        then show ?thesis using con by blast
      qed
    qed
    have all: "\<forall>k \<in> set (map fst t'). is_connected root_id t' k"
    proof
      fix k assume "k \<in> set (map fst t')"
      with keys have k: "k \<in> set (map fst t)" by simp
      show "is_connected root_id t' k"
      proof (cases "k \<in> set us")
        case True
        then show ?thesis using con by blast
      next
        case False
        with k have "k \<in> set (simulate_unlocks t root_id)" by (simp add: us_def U_def)
        from unlocked_connected [OF d rf this] show ?thesis using con by blast
      qed
    qed
    from still_locked_empty [OF d' a' w' all] r keys show ?thesis by simp
  qed
qed

subsection \<open>What the traversal from the root visits\<close>

lemma bfs_sound:
  assumes "bfs t stop queue visited = (b, vs)"
    and "set queue \<union> set visited \<subseteq> R"
    and "\<forall>x y. x \<in> R \<longrightarrow> (x, y) \<in> child_rel t \<longrightarrow> y \<in> R"
  shows "set vs \<subseteq> R"
  using assms
proof (induction t stop queue visited rule: bfs.induct)
  case (1 t stop visited)
  then show ?case by auto
next
  case (2 t stop fid queue visited)
  show ?case
  proof (cases "fid \<in> set visited")
    case True
    with "2.prems" have r: "bfs t stop queue visited = (b, vs)" by simp
    from "2.prems"(2) have "set queue \<union> set visited \<subseteq> R" by auto
    from "2.IH"(1) [OF True r this "2.prems"(3)] show ?thesis .
  next
    case False
    note nv = False
    show ?thesis
    proof (cases "stop = Some fid")
      case True
      with "2.prems" nv show ?thesis by auto
    next
      case False
      define kids where "kids = (case map_of t fid of None \<Rightarrow> [] | Some n \<Rightarrow> children n)"
      from "2.prems"(1) nv False
      have r: "bfs t stop (queue @ kids) (visited @ [fid]) = (b, vs)"
        by (simp add: kids_def)
      from "2.prems"(2) have f: "fid \<in> R" by simp
      have "set kids \<subseteq> R"
      proof
        fix y assume "y \<in> set kids"
        then have "(fid, y) \<in> child_rel t"
          by (cases "map_of t fid") (simp_all add: kids_def child_rel_def)
        with f "2.prems"(3) show "y \<in> R" by blast
      qed
      with "2.prems"(2) have "set (queue @ kids) \<union> set (visited @ [fid]) \<subseteq> R" by auto
      from "2.IH"(2) [OF nv False r [unfolded kids_def] this [unfolded kids_def] "2.prems"(3)]
      show ?thesis .
    qed
  qed
qed

lemma reachable_is_child_path:
  assumes "x \<in> set (get_reachable_from_root t root_id)"
  shows "(root_id, x) \<in> (child_rel t)\<^sup>*"
proof -
  obtain b vs where r: "bfs t None [root_id] [] = (b, vs)" by (cases "bfs t None [root_id] []")
  have "set vs \<subseteq> {y. (root_id, y) \<in> (child_rel t)\<^sup>*}"
    by (rule bfs_sound [OF r]) (auto intro: rtrancl_into_rtrancl)
  with assms r show ?thesis by (auto simp add: get_reachable_from_root_def)
qed

subsection \<open>Edges from a connected node\<close>

definition wired :: "string \<Rightarrow> node_table \<Rightarrow> bool" where
  "wired root_id t \<longleftrightarrow>
     distinct (map fst t) \<and> prereqs_connected root_id t \<and> children_known t"

lemma wired_lookup:
  assumes "wired root_id t" and "map_of t k = Some n"
  shows "(\<forall>p \<in> set (prerequisites n). is_connected root_id t p)
         \<and> set (children n) \<subseteq> set (map fst t)"
proof -
  from assms(2) have "(k, n) \<in> set t" by (rule map_of_SomeD)
  with assms(1) show ?thesis
    unfolding wired_def prereqs_connected_def children_known_def by force
qed

lemma wiredI:
  assumes d: "distinct (map fst t)"
    and "\<And>k n. map_of t k = Some n \<Longrightarrow>
           (\<forall>p \<in> set (prerequisites n). is_connected root_id t p)
           \<and> set (children n) \<subseteq> set (map fst t)"
  shows "wired root_id t"
proof -
  have "map_of t (fst e) = Some (snd e)" if "e \<in> set t" for e
    using that d by (cases e) (auto intro: map_of_is_SomeI)
  with assms(2) have "\<forall>e \<in> set t. (\<forall>p \<in> set (prerequisites (snd e)). is_connected root_id t p)
           \<and> set (children (snd e)) \<subseteq> set (map fst t)" by blast
  with d show ?thesis
    unfolding wired_def prereqs_connected_def children_known_def by blast
qed

text \<open>An edge from \<open>p\<close> to \<open>c\<close> has been added, whatever else happened to the depths.\<close>

definition edge_added :: "string \<Rightarrow> string \<Rightarrow> node_table \<Rightarrow> node_table \<Rightarrow> bool" where
  "edge_added p c t t' \<longleftrightarrow>
     map fst t' = map fst t
     \<and> (\<forall>x. rel_option
              (\<lambda>n n'. set (prerequisites n') = set (prerequisites n) \<union> (if x = c then {p} else {})
                     \<and> set (children n') = set (children n) \<union> (if x = p then {c} else {}))
              (map_of t x) (map_of t' x))"

lemma edge_added_convergence: "edge_added e n t (add_convergence_edge e n t)"
  unfolding edge_added_def
proof (intro conjI allI)
  show "map fst (add_convergence_edge e n t) = map fst t" by simp
  fix x
  show "rel_option
          (\<lambda>m m'. set (prerequisites m') = set (prerequisites m) \<union> (if x = n then {e} else {})
                 \<and> set (children m') = set (children m) \<union> (if x = e then {n} else {}))
          (map_of t x) (map_of (add_convergence_edge e n t) x)"
    by (cases "map_of t x") (auto simp add: add_convergence_edge_lookup)
qed

lemma edge_added_link:
  assumes "map_of t p = Some parent"
  shows "edge_added p c t (link_nodes p c t)"
  unfolding edge_added_def
proof (intro conjI allI)
  show "map fst (link_nodes p c t) = map fst t" by simp
  fix x
  show "rel_option
          (\<lambda>m m'. set (prerequisites m') = set (prerequisites m) \<union> (if x = c then {p} else {})
                 \<and> set (children m') = set (children m) \<union> (if x = p then {c} else {}))
          (map_of t x) (map_of (link_nodes p c t) x)"
    using assms by (cases "map_of t x") (auto simp add: link_nodes_lookup)
qed

lemma edge_added_connected:
  assumes "edge_added p c t t'" and "is_connected root_id t x"
  shows "is_connected root_id t' x"
proof -
  from assms(2) obtain n where n: "map_of t x = Some n" "x = root_id \<or> prerequisites n \<noteq> []"
    by (cases "map_of t x") (simp_all add: is_connected_def)
  from assms(1) have "rel_option
              (\<lambda>n n'. set (prerequisites n') = set (prerequisites n) \<union> (if x = c then {p} else {})
                     \<and> set (children n') = set (children n) \<union> (if x = p then {c} else {}))
              (map_of t x) (map_of t' x)" by (simp add: edge_added_def)
  with n(1) obtain n' where n': "map_of t' x = Some n'"
    "set (prerequisites n') = set (prerequisites n) \<union> (if x = c then {p} else {})"
    by (cases "map_of t' x") simp_all
  from n(2) n'(2) have "x = root_id \<or> prerequisites n' \<noteq> []"
    by (cases "prerequisites n'") auto
  with n'(1) show ?thesis by (simp add: is_connected_def)
qed

lemma edge_added_wired:
  assumes w: "wired root_id t" and e: "edge_added p c t t'"
    and p: "is_connected root_id t p" and c: "c \<in> set (map fst t)"
  shows "wired root_id t'"
proof (rule wiredI)
  from w e show "distinct (map fst t')" by (simp add: wired_def edge_added_def)
next
  fix k n' assume k: "map_of t' k = Some n'"
  from e have "rel_option
              (\<lambda>n n'. set (prerequisites n') = set (prerequisites n) \<union> (if k = c then {p} else {})
                     \<and> set (children n') = set (children n) \<union> (if k = p then {c} else {}))
              (map_of t k) (map_of t' k)" by (simp add: edge_added_def)
  with k obtain n where n: "map_of t k = Some n"
    "set (prerequisites n') = set (prerequisites n) \<union> (if k = c then {p} else {})"
    "set (children n') = set (children n) \<union> (if k = p then {c} else {})"
    by (cases "map_of t k") simp_all
  from wired_lookup [OF w n(1)]
  have old: "\<forall>q \<in> set (prerequisites n). is_connected root_id t q"
    "set (children n) \<subseteq> set (map fst t)" by simp_all
  have "\<forall>q \<in> set (prerequisites n'). is_connected root_id t q"
    using old(1) n(2) p by (auto split: if_splits)
  then have a: "\<forall>q \<in> set (prerequisites n'). is_connected root_id t' q"
    using edge_added_connected [OF e] by blast
  have "set (children n') \<subseteq> set (map fst t)"
    using old(2) n(3) c by (auto split: if_splits)
  with e have b: "set (children n') \<subseteq> set (map fst t')" by (simp add: edge_added_def)
  from a b show "(\<forall>p \<in> set (prerequisites n'). is_connected root_id t' p)
           \<and> set (children n') \<subseteq> set (map fst t')" ..
qed

text \<open>A set of ids that are connected, along with the wiring.\<close>

definition wired_with :: "string \<Rightarrow> string set \<Rightarrow> node_table \<Rightarrow> bool" where
  "wired_with root_id S t \<longleftrightarrow> wired root_id t \<and> (\<forall>x \<in> S. is_connected root_id t x)"

lemma add_edge_wired_with:
  assumes "wired_with root_id S t" and "e \<in> S" and "n \<in> set (map fst t)"
  shows "wired_with root_id S (add_convergence_edge e n t)"
proof -
  from assms(1,2) have w: "wired root_id t" and c: "is_connected root_id t e"
    by (simp_all add: wired_with_def)
  from edge_added_wired [OF w edge_added_convergence c assms(3)]
    edge_added_connected [OF edge_added_convergence] assms(1)
  show ?thesis unfolding wired_with_def by blast
qed

lemma add_edges_wired_with:
  assumes "wired_with root_id S t" and "set cs \<subseteq> S" and "fid \<in> set (map fst t)"
  shows "wired_with root_id S (fold (\<lambda>c. add_convergence_edge c fid) cs t)"
  using assms
proof (induction cs arbitrary: t)
  case Nil
  then show ?case by simp
next
  case (Cons c cs)
  from Cons.prems have w: "wired_with root_id S (add_convergence_edge c fid t)"
    by (intro add_edge_wired_with) simp_all
  from Cons.prems have k: "fid \<in> set (map fst (add_convergence_edge c fid t))" by simp
  from Cons.prems(2) have s: "set cs \<subseteq> S" by simp
  from Cons.IH [OF w s k] show ?case by simp
qed

lemma enforce_node_edges:
  "enforce_node reachable root_id fid t = t
   \<or> (fid \<in> set (map fst t)
       \<and> (\<exists>cs. set cs \<subseteq> set reachable
             \<and> enforce_node reachable root_id fid t
                 = fold (\<lambda>c. add_convergence_edge c fid) cs t))"
proof (cases "map_of t fid")
  case None
  then show ?thesis by (simp add: enforce_node_def)
next
  case (Some node)
  then have k: "fid \<in> set (map fst t)" by (auto dest!: map_of_SomeD intro: rev_image_eqI)
  define cands where "cands = sort_key (enforce_sort_key node) (enforce_candidates t reachable fid node)"
  define m where "m = nat ((if tier_to_depth (tier node) \<ge> 4 then 3 else 2)
                           - int (length (prerequisites node)))"
  have nd: "set (map fst (take m cands)) \<subseteq> set reachable"
  proof
    fix c assume "c \<in> set (map fst (take m cands))"
    then obtain e where "e \<in> set (take m cands)" "c = fst e" by auto
    then have "e \<in> set (enforce_candidates t reachable fid node)"
      by (auto simp add: cands_def dest: in_set_takeD)
    then show "c \<in> set reachable"
      using \<open>c = fst e\<close> by (auto simp add: enforce_candidates_def)
  qed
  have fm: "fold (\<lambda>c. add_convergence_edge (fst c) fid) (take m cands) t
                 = fold (\<lambda>c. add_convergence_edge c fid) (map fst (take m cands)) t"
    by (simp add: fold_map comp_def)
  show ?thesis
  proof (cases "enforce_node reachable root_id fid t = t")
    case True
    then show ?thesis by simp
  next
    case False
    from False Some have "enforce_node reachable root_id fid t
        = fold (\<lambda>c. add_convergence_edge (fst c) fid) (take m cands) t"
      unfolding enforce_node_def Let_def cands_def m_def
      by (simp split: if_splits)
    with fm have "enforce_node reachable root_id fid t
        = fold (\<lambda>c. add_convergence_edge c fid) (map fst (take m cands)) t" by simp
    with nd k show ?thesis by blast
  qed
qed

lemma enforce_node_wired_with:
  assumes "wired_with root_id (set reachable) t"
  shows "wired_with root_id (set reachable) (enforce_node reachable root_id fid t)"
proof -
  from enforce_node_edges [of reachable root_id fid t]
  consider "enforce_node reachable root_id fid t = t"
    | cs where "fid \<in> set (map fst t)" "set cs \<subseteq> set reachable"
        "enforce_node reachable root_id fid t = fold (\<lambda>c. add_convergence_edge c fid) cs t"
    by blast
  then show ?thesis
  proof cases
    case 1
    with assms show ?thesis by simp
  next
    case 2
    from add_edges_wired_with [OF assms 2(2,1)] 2(3) show ?thesis by simp
  qed
qed

lemma enforce_fold_wired_with:
  "wired_with root_id (set reachable) t \<Longrightarrow>
   wired_with root_id (set reachable) (fold (enforce_node reachable root_id) ks t)"
  by (induction ks arbitrary: t) (simp_all add: enforce_node_wired_with)

lemma convergence_pick_wired_with:
  "wired_with root_id (set reachable) t \<Longrightarrow>
   wired_with root_id (set reachable) (fst (convergence_pick available reachable node_id ds t g))"
proof (induction ds arbitrary: t g)
  case Nil
  then show ?case by simp
next
  case (Cons d ds)
  show ?case
  proof (cases "map_of t node_id")
    case None
    then show ?thesis using Cons.prems by simp
  next
    case (Some node)
    then have k: "node_id \<in> set (map fst t)"
      by (auto dest!: map_of_SomeD intro: rev_image_eqI)
    define different where "different = convergence_different t reachable node_id node
            (case map_of available d of None \<Rightarrow> [] | Some ps \<Rightarrow> ps)"
    show ?thesis
    proof (cases "different = []")
      case True
      then show ?thesis using Some Cons by (simp add: different_def)
    next
      case False
      then have "fst (random_choice different g) \<in> set different"
        by (rule random_choice_member)
      then have "fst (random_choice different g) \<in> set reachable"
        by (auto simp add: different_def convergence_different_def)
      from add_edge_wired_with [OF Cons.prems this k] show ?thesis
        using Some False by (simp add: different_def case_prod_beta Let_def)
    qed
  qed
qed

lemma convergence_rounds_wired_with:
  "wired_with root_id (set reachable) t \<Longrightarrow>
   wired_with root_id (set reachable)
     (fst (convergence_rounds k max_prereqs available reachable node_id t g))"
proof (induction k arbitrary: t g)
  case 0
  then show ?case by simp
next
  case (Suc k)
  show ?case
  proof (cases "map_of t node_id")
    case None
    then show ?thesis using Suc.prems by simp
  next
    case (Some node)
    obtain t' g' where p: "convergence_pick available reachable node_id
            (rev [0..depth node - 1]) t g = (t', g')" by (cases "convergence_pick available reachable node_id
            (rev [0..depth node - 1]) t g")
    have "wired_with root_id (set reachable) t'"
      using convergence_pick_wired_with [OF Suc.prems, of available node_id
            "rev [0..depth node - 1]" g] p by simp
    from Suc.IH [OF this] show ?thesis using Some p Suc.prems by simp
  qed
qed

lemma maybe_add_convergence_rounds:
  "fst (maybe_add_convergence chance node_id available t root_id g) = t
   \<or> (\<exists>k mp g1. fst (maybe_add_convergence chance node_id available t root_id g)
          = fst (convergence_rounds k mp available (get_reachable_from_root t root_id)
                   node_id t g1))"
  unfolding maybe_add_convergence_def Let_def
  by (cases "map_of t node_id")
     (auto simp add: case_prod_beta simp del: convergence_rounds.simps)

subsection \<open>The invariant of the build\<close>

lemma build_inv_wired: "build_inv root_id t \<Longrightarrow> wired root_id t"
  by (simp add: build_inv_def wired_def)

lemma build_invI:
  "wired root_id t \<Longrightarrow> root_free t root_id \<Longrightarrow> tree_inv t \<Longrightarrow> build_inv root_id t"
  by (simp add: build_inv_def wired_def tree_inv_def)

lemma reachable_connected:
  assumes inv: "build_inv root_id t" and x: "x \<in> set (get_reachable_from_root t root_id)"
  shows "is_connected root_id t x"
proof -
  from inv have rf: "root_free t root_id" and b: "bidirectional t"
    by (simp_all add: build_inv_def)
  from reachable_is_child_path [OF x] show ?thesis
  proof (cases rule: rtranclE)
    case base
    with rf show ?thesis by (auto simp add: is_connected_def root_free_def split: option.splits)
  next
    case (step y)
    then obtain ny where ny: "map_of t y = Some ny" "x \<in> set (children ny)"
      by (auto simp add: child_rel_def)
    from wired_lookup [OF build_inv_wired [OF inv] ny(1)] ny(2)
    have "x \<in> set (map fst t)" by blast
    then obtain nx where nx: "map_of t x = Some nx"
      by (cases "map_of t x") (auto simp add: map_of_eq_None_iff)
    from b ny nx have "y \<in> set (prerequisites nx)" unfolding bidirectional_iff by blast
    then have "prerequisites nx \<noteq> []" by auto
    with nx show ?thesis by (simp add: is_connected_def)
  qed
qed

lemma build_inv_wired_with:
  assumes "build_inv root_id t"
  shows "wired_with root_id (set (get_reachable_from_root t root_id)) t"
  using assms reachable_connected [OF assms] by (simp add: wired_with_def build_inv_wired)

lemma enforce_high_tier_convergence_build:
  assumes inv: "build_inv root_id t"
  shows "build_inv root_id (enforce_high_tier_convergence t root_id)"
proof (rule build_invI)
  from enforce_fold_wired_with [OF build_inv_wired_with [OF inv], of "map fst t"]
  show "wired root_id (enforce_high_tier_convergence t root_id)"
    by (simp add: enforce_high_tier_convergence_def Let_def wired_with_def)
  from inv have rf: "root_free t root_id" and ti: "tree_inv t"
    by (simp_all add: build_inv_def tree_inv_def)
  from rf show "root_free (enforce_high_tier_convergence t root_id) root_id"
    by (rule enforce_high_tier_convergence_root_free)
  from ti show "tree_inv (enforce_high_tier_convergence t root_id)"
    by (rule enforce_high_tier_convergence_inv)
qed

lemma maybe_add_convergence_build:
  assumes inv: "build_inv root_id t" and ne: "node_id \<noteq> root_id"
  shows "build_inv root_id (fst (maybe_add_convergence chance node_id available t root_id g))"
proof (rule build_invI)
  from maybe_add_convergence_rounds [of chance node_id available t root_id g]
    convergence_rounds_wired_with [OF build_inv_wired_with [OF inv]] build_inv_wired [OF inv]
  show "wired root_id (fst (maybe_add_convergence chance node_id available t root_id g))"
    by (auto simp add: wired_with_def)
  from inv have rf: "root_free t root_id" and ti: "tree_inv t"
    by (simp_all add: build_inv_def tree_inv_def)
  from rf ne
  show "root_free (fst (maybe_add_convergence chance node_id available t root_id g)) root_id"
    by (rule maybe_add_convergence_root_free)
  from ti show "tree_inv (fst (maybe_add_convergence chance node_id available t root_id g))"
    by (rule maybe_add_convergence_inv)
qed

lemma unconnected_childless:
  assumes inv: "build_inv root_id t" and c: "map_of t c = Some cn"
    and nc: "\<not> is_connected root_id t c"
  shows "children cn = []"
proof (rule ccontr)
  assume "children cn \<noteq> []"
  then obtain y where y: "y \<in> set (children cn)" by (cases "children cn") auto
  from wired_lookup [OF build_inv_wired [OF inv] c] y have "y \<in> set (map fst t)" by blast
  then obtain ny where ny: "map_of t y = Some ny"
    by (cases "map_of t y") (auto simp add: map_of_eq_None_iff)
  from inv have "bidirectional t" by (simp add: build_inv_def)
  with c ny y have "c \<in> set (prerequisites ny)" unfolding bidirectional_iff by blast
  with wired_lookup [OF build_inv_wired [OF inv] ny] have "is_connected root_id t c" by blast
  with nc show False ..
qed

lemma link_nodes_build:
  assumes inv: "build_inv root_id t"
    and p: "is_connected root_id t parent_id"
    and c: "child_id \<in> set (map fst t)" and nc: "\<not> is_connected root_id t child_id"
  shows "build_inv root_id (link_nodes parent_id child_id t)"
proof (rule build_invI)
  from p obtain parent where parent: "map_of t parent_id = Some parent"
    by (cases "map_of t parent_id") (simp_all add: is_connected_def)
  from c obtain cn where cn: "map_of t child_id = Some cn"
    by (cases "map_of t child_id") (auto simp add: map_of_eq_None_iff)
  from nc cn have cr: "child_id \<noteq> root_id" and cp: "prerequisites cn = []"
    by (auto simp add: is_connected_def)
  from p nc have ne: "parent_id \<noteq> child_id" by auto
  from edge_added_wired [OF build_inv_wired [OF inv] edge_added_link [OF parent] p c]
  show "wired root_id (link_nodes parent_id child_id t)" .
  from inv have rf: "root_free t root_id" by (simp add: build_inv_def)
  then obtain rn where rn: "map_of t root_id = Some rn" "prerequisites rn = []"
    by (cases "map_of t root_id") (simp_all add: root_free_def)
  with parent cr show "root_free (link_nodes parent_id child_id t) root_id"
    by (simp add: root_free_def link_nodes_lookup)
  from inv have b: "bidirectional t" and a: "acyclic (prereq_rel t)"
    by (simp_all add: build_inv_def)
  from unconnected_childless [OF inv cn nc] have "children cn = []" .
  from link_nodes_acyclic [OF a b cn this ne] link_nodes_bidirectional [OF b]
  show "tree_inv (link_nodes parent_id child_id t)" by (simp add: tree_inv_def)
qed

lemma fresh_build:
  assumes "distinct (map fst t)" and "root_id \<in> set (map fst t)"
    and "\<forall>e \<in> set t. children (snd e) = [] \<and> prerequisites (snd e) = []"
  shows "build_inv root_id t"
proof -
  have l: "children n = [] \<and> prerequisites n = []" if "map_of t k = Some n" for k n
    using map_of_SomeD [OF that] assms(3) by force
  from assms(2) obtain rn where "map_of t root_id = Some rn"
    by (cases "map_of t root_id") (auto simp add: map_of_eq_None_iff)
  with l have rf: "root_free t root_id" by (simp add: root_free_def)
  have "prereq_rel t = {}" using l by (auto simp add: prereq_rel_def)
  then have a: "acyclic (prereq_rel t)" by (simp add: acyclic_def)
  have b: "bidirectional t" unfolding bidirectional_iff using l by auto
  have w: "prereqs_connected root_id t \<and> children_known t"
    using assms(3) by (simp add: prereqs_connected_def children_known_def)
  from assms(1) rf a b w show ?thesis by (simp add: build_inv_def)
qed

lemma bfs_all:
  assumes "bfs t None queue visited = (b, vs)"
    and "\<forall>x \<in> set visited. \<forall>y. (x, y) \<in> child_rel t \<longrightarrow> y \<in> set visited \<union> set queue"
  shows "set visited \<union> set queue \<subseteq> set vs
         \<and> (\<forall>x \<in> set vs. \<forall>y. (x, y) \<in> child_rel t \<longrightarrow> y \<in> set vs)"
  using assms
proof (induction t "None :: string option" queue visited rule: bfs.induct)
  case (1 t visited)
  then show ?case by auto
next
  case (2 t fid queue visited)
  show ?case
  proof (cases "fid \<in> set visited")
    case True
    with "2.prems" have r: "bfs t None queue visited = (b, vs)" by simp
    have inv: "\<forall>x \<in> set visited. \<forall>y. (x, y) \<in> child_rel t \<longrightarrow> y \<in> set visited \<union> set queue"
      using "2.prems"(2) True by auto
    from "2.hyps"(1) [OF True r inv] True show ?thesis by auto
  next
    case False
    define kids where "kids = (case map_of t fid of None \<Rightarrow> [] | Some n \<Rightarrow> children n)"
    from "2.prems"(1) False
    have r: "bfs t None (queue @ kids) (visited @ [fid]) = (b, vs)"
      by (simp add: kids_def)
    have k: "\<forall>y. (fid, y) \<in> child_rel t \<longrightarrow> y \<in> set kids"
      by (auto simp add: child_rel_def kids_def)
    have inv: "\<forall>x \<in> set (visited @ [fid]). \<forall>y. (x, y) \<in> child_rel t \<longrightarrow>
                 y \<in> set (visited @ [fid]) \<union> set (queue @ kids)"
      using "2.prems"(2) k by auto
    have ne: "(None :: string option) \<noteq> Some fid" by simp
    from "2.hyps"(2) [OF False ne r [unfolded kids_def] inv [unfolded kids_def]]
    show ?thesis by (auto simp add: kids_def)
  qed
qed

lemma reachable_closed:
  "root_id \<in> set (get_reachable_from_root t root_id)
   \<and> (\<forall>x \<in> set (get_reachable_from_root t root_id). \<forall>y. (x, y) \<in> child_rel t
          \<longrightarrow> y \<in> set (get_reachable_from_root t root_id))"
proof -
  obtain b vs where r: "bfs t None [root_id] [] = (b, vs)" by (cases "bfs t None [root_id] []")
  from bfs_all [OF r] r show ?thesis by (simp add: get_reachable_from_root_def)
qed

text \<open>
  On a table of the build the traversal from the root (the set \<^verbatim>\<open>connected\<close> of
  \<^verbatim>\<open>_connect_orphans\<close>) visits exactly the connected nodes.
\<close>

lemma connected_iff_reachable:
  assumes inv: "build_inv root_id t"
  shows "is_connected root_id t k \<longleftrightarrow> k \<in> set (get_reachable_from_root t root_id)"
proof
  assume "k \<in> set (get_reachable_from_root t root_id)"
  with inv show "is_connected root_id t k" by (rule reachable_connected)
next
  from inv have a: "acyclic (prereq_rel t)" and b: "bidirectional t"
    by (simp_all add: build_inv_def)
  have wf: "wf (prereq_rel t)" using finite_prereq_rel a by (rule finite_acyclic_wf)
  show "is_connected root_id t k \<Longrightarrow> k \<in> set (get_reachable_from_root t root_id)"
    using wf
  proof (induction k rule: wf_induct_rule)
    case (less k)
    show ?case
    proof (cases "k = root_id")
      case True
      then show ?thesis using reachable_closed [of root_id t] by simp
    next
      case False
      with less.prems obtain n where n: "map_of t k = Some n" "prerequisites n \<noteq> []"
        by (auto simp add: is_connected_def split: option.splits)
      then obtain p where p: "p \<in> set (prerequisites n)" by (cases "prerequisites n") auto
      with n(1) have r: "(p, k) \<in> prereq_rel t" by (auto simp add: prereq_rel_def)
      from wired_lookup [OF build_inv_wired [OF inv] n(1)] p
      have cp: "is_connected root_id t p" by blast
      from less.IH [OF r cp] have pr: "p \<in> set (get_reachable_from_root t root_id)" .
      from cp obtain pn where pn: "map_of t p = Some pn"
        by (cases "map_of t p") (simp_all add: is_connected_def)
      from b pn n(1) p have "k \<in> set (children pn)" unfolding bidirectional_iff by blast
      with pn have "(p, k) \<in> child_rel t" by (auto simp add: child_rel_def)
      with pr reachable_closed [of root_id t] show ?thesis by blast
    qed
  qed
qed

subsection \<open>The build up to the repair\<close>

text \<open>
  The tables that \<^verbatim>\<open>_build_school_tree\<close> (lines 281 to 343) can hold when it calls
  \<^verbatim>\<open>_ensure_all_reachable\<close>, whatever the spells, themes, shape, configuration and random
  draws.  The table starts with one node per form id, the root among them (lines 297 to
  320).  Until the repair it is changed in three ways only:
  \<^verbatim>\<open>link_nodes(parent, node)\<close> in \<^verbatim>\<open>_connect_nodes\<close>, \<^verbatim>\<open>_process_unassigned\<close> and
  \<^verbatim>\<open>_connect_orphans\<close> (lines 428, 552, 800), where the parent is taken from the connected
  nodes (the lists \<^verbatim>\<open>available\<close>, the set \<^verbatim>\<open>connected\<close>, or the root) and the node is not
  connected yet; \<^verbatim>\<open>_maybe_add_convergence\<close> on the node just linked (line 443); and
  \<^verbatim>\<open>_enforce_high_tier_convergence\<close> (line 340).  Which parent is chosen, for which nodes
  the convergence is tried, and how often, is left open.

  Modelled from the spec: \<^verbatim>\<open>TreeNode.from_spell\<close> (absent \<^verbatim>\<open>core/node.py\<close>) creates a node
  without links; the spec (section 4.5) has every item unconnected until it is linked.
\<close>

inductive built :: "string \<Rightarrow> node_table \<Rightarrow> bool" for root_id :: string where
  created:
    "distinct (map fst t) \<Longrightarrow> root_id \<in> set (map fst t) \<Longrightarrow>
     \<forall>e \<in> set t. children (snd e) = [] \<and> prerequisites (snd e) = [] \<Longrightarrow>
     built root_id t"
| linked:
    "built root_id t \<Longrightarrow> is_connected root_id t parent_id \<Longrightarrow>
     child_id \<in> set (map fst t) \<Longrightarrow> \<not> is_connected root_id t child_id \<Longrightarrow>
     built root_id (link_nodes parent_id child_id t)"
| converged:
    "built root_id t \<Longrightarrow> node_id \<noteq> root_id \<Longrightarrow>
     built root_id
       (fst (maybe_add_convergence convergence_chance node_id available t root_id g))"
| enforced:
    "built root_id t \<Longrightarrow> built root_id (enforce_high_tier_convergence t root_id)"

lemma built_inv: "built root_id t \<Longrightarrow> build_inv root_id t"
proof (induction rule: built.induct)
  case (created t)
  from created.hyps show ?case by (rule fresh_build)
next
  case (linked t parent_id child_id)
  from linked.IH linked.hyps(2,3,4) show ?case by (rule link_nodes_build)
next
  case (converged t node_id convergence_chance available g)
  from converged.IH converged.hyps(2) show ?case by (rule maybe_add_convergence_build)
next
  case (enforced t)
  from enforced.IH show ?case by (rule enforce_high_tier_convergence_build)
qed

text \<open>A root, a chain of two spells under it, and a spell that was never linked.\<close>

definition unlinked_table :: node_table where
  "unlinked_table =
     [(''R'', mk_node ''Novice'' ''fire'' 0 [] []),
      (''A'', mk_node ''Apprentice'' ''fire'' 0 [] []),
      (''B'', mk_node ''Adept'' ''frost'' 0 [] []),
      (''O'', mk_node ''Adept'' ''frost'' 0 [] [])]"

definition chain_table :: node_table where
  "chain_table = link_nodes ''A'' ''B'' (link_nodes ''R'' ''A'' unlinked_table)"

lemma chain_built: "built ''R'' chain_table"
  unfolding chain_table_def
proof (intro built.linked built.created)
  show "distinct (map fst unlinked_table)" by code_simp
  show "''R'' \<in> set (map fst unlinked_table)" by code_simp
  show "\<forall>e \<in> set unlinked_table. children (snd e) = [] \<and> prerequisites (snd e) = []"
    by code_simp
  show "is_connected ''R'' unlinked_table ''R''" by code_simp
  show "''A'' \<in> set (map fst unlinked_table)" by code_simp
  show "\<not> is_connected ''R'' unlinked_table ''A''" by code_simp
  show "is_connected ''R'' (link_nodes ''R'' ''A'' unlinked_table) ''A''" by code_simp
  show "''B'' \<in> set (map fst (link_nodes ''R'' ''A'' unlinked_table))" by code_simp
  show "\<not> is_connected ''R'' (link_nodes ''R'' ''A'' unlinked_table) ''B''" by code_simp
qed

text \<open>
  Claim C1.  Whatever table the build holds when it calls \<^verbatim>\<open>_ensure_all_reachable\<close>, the
  repair returns, keeps the ids of the table, and leaves every one of them in the unlock
  fixed point that \<^verbatim>\<open>_simulate_unlocks\<close> computes from the root: no node is still locked.
\<close>

theorem build_leaves_all_unlockable:
  assumes "built root_id t"
  shows "\<exists>t'. ensure_all_reachable set_order max_children t root_id = Inr t'
              \<and> map fst t' = map fst t
              \<and> set (map fst t') \<subseteq> set (simulate_unlocks t' root_id)
              \<and> still_locked t' root_id = []"
proof -
  from assms have "build_inv root_id t" by (rule built_inv)
  from repair_on_build [OF this, of set_order max_children]
  obtain t' where t': "ensure_all_reachable set_order max_children t root_id = Inr t'"
    "still_locked t' root_id = []" "map fst t' = map fst t" by blast
  from t'(2) have "set (map fst t') \<subseteq> set (simulate_unlocks t' root_id)"
    by (auto simp add: still_locked_def filter_empty_conv)
  with t' show ?thesis by blast
qed

theorem build_leaves_all_unlockable_witness:
  "built ''R'' chain_table
   \<and> prereqs_of chain_table = [(''R'', []), (''A'', [''R'']), (''B'', [''A'']), (''O'', [])]
   \<and> still_locked chain_table ''R'' = [''O'']
   \<and> map_sum id prereqs_of (ensure_all_reachable (\<lambda>s. 0) 3 chain_table ''R'')
       = Inr [(''R'', []), (''A'', [''R'']), (''B'', [''A'']), (''O'', [''R''])]
   \<and> (\<exists>t'. ensure_all_reachable (\<lambda>s. 0) 3 chain_table ''R'' = Inr t'
          \<and> set (map fst t') \<subseteq> set (simulate_unlocks t' ''R'')
          \<and> still_locked t' ''R'' = [])"
proof -
  have p: "prereqs_of chain_table = [(''R'', []), (''A'', [''R'']), (''B'', [''A'']), (''O'', [])]"
    by code_simp
  have s: "still_locked chain_table ''R'' = [''O'']" by code_simp
  have e: "map_sum id prereqs_of (ensure_all_reachable (\<lambda>s. 0) 3 chain_table ''R'')
       = Inr [(''R'', []), (''A'', [''R'']), (''B'', [''A'']), (''O'', [''R''])]" by code_simp
  from build_leaves_all_unlockable [OF chain_built, of "\<lambda>s. 0" 3] chain_built p s e
  show ?thesis by blast
qed

end
